theory Spec2Isabelle
  imports Main "HOL-Library.Char_ord" "HOL-Library.Word"
begin

section \<open>The lexer of phosphorgm: \<^verbatim>\<open>src/parser/lexer.cpp\<close>\<close>

subsection \<open>Tokens, exceptions and the lexer object\<close>

text \<open>
  The token kinds are the enumerators of \<^verbatim>\<open>TokenType\<close> that \<^verbatim>\<open>lexer.cpp\<close> uses (the
  enumeration itself is declared in \<^verbatim>\<open>lexer.hpp\<close>). \<^verbatim>\<open>If\<close> and \<^verbatim>\<open>Plus\<close> carry a prime,
  because HOL has constants of these names.
\<close>

datatype TokenType =
    LineFeed | End | StringLiteral | RealLiteral | Identifier
  | NotEqual | Inferior | InferiorEqual | Superior | SuperiorEqual
  | BraceLeft | BraceRight | ParenthesisLeft | ParenthesisRight
  | Dot | Comma | Semicolon
  | LogicAnd | LogicOr | LogicXor
  | AccessorLeftArrayRef | AccessorLeftDSList | AccessorLeftDSMap | AccessorLeftDSGrid
  | AccessorLeftArrayValue | AccessorRight
  | Increment | Decrement
  | AssignAdd | AssignSubtract | AssignMultiply | AssignDivide
  | AssignAnd | AssignOr | AssignXor | AssignShiftLeft | AssignShiftRight
  | DEqual | Equal
  | Plus' | Minus | Multiply | Divide
  | EuclDivide | EuclModulo
  | BitAnd | BitOr | BitXor
  | If' | ElseIf | Else | For | While | Do | Repeat | With | LocalVar

text \<open>
  \<^verbatim>\<open>size_t\<close>, taken as 64 bits wide: \<open>+\<close> on it wraps around, as \<^verbatim>\<open>++\<close> does on the
  unsigned counters of the lexer.
\<close>

type_synonym size_t = "64 word"

text \<open>
  \<^verbatim>\<open>Token{type, line, col}\<close>. The line and the column are filled from \<^verbatim>\<open>size_t\<close> values and
  read back as \<^verbatim>\<open>size_t\<close> by \<^verbatim>\<open>Lexer::line\<close> and \<^verbatim>\<open>Lexer::column\<close>.
\<close>

datatype Token = Token (tok_type: TokenType) (tok_line: size_t) (tok_col: size_t)

text \<open>
  What a call can throw: a \<^verbatim>\<open>LexerException\<close> with its message, line and column, or the
  \<^verbatim>\<open>std::out_of_range\<close> of \<^verbatim>\<open>std::string::substr\<close>.
\<close>

datatype LexerException = LexerException string size_t size_t | out_of_range

text \<open>
  The data members of \<^verbatim>\<open>Lexer\<close>. The iterator \<^verbatim>\<open>_it\<close> is its distance from
  \<^verbatim>\<open>begin(_source)\<close>, a natural number that never exceeds the length of the buffer. The
  counters \<^verbatim>\<open>_line\<close> and \<^verbatim>\<open>_col\<close> are \<^verbatim>\<open>size_t\<close>.
\<close>

record Lexer =
  source :: string
  it :: nat
  last_char :: char
  line :: size_t
  col :: size_t
  current_parsed :: bool
  last_value :: string
  last_token :: Token

text \<open>
  A call either throws or returns a value and leaves the lexer in a new state. Functions
  with a loop return an \<open>option\<close> of that: \<open>None\<close> is a loop that never ends.
\<close>

type_synonym 'a result = "LexerException + 'a \<times> Lexer"

subsection \<open>Characters\<close>

abbreviation NUL :: char where "NUL \<equiv> CHR 0x00"
abbreviation LF :: char where "LF \<equiv> CHR 0x0A"
abbreviation TAB :: char where "TAB \<equiv> CHR 0x09"
abbreviation DQUOTE :: char where "DQUOTE \<equiv> CHR 0x22"
abbreviation SQUOTE :: char where "SQUOTE \<equiv> CHR 0x27"
abbreviation BACKSLASH :: char where "BACKSLASH \<equiv> CHR 0x5C"

definition is_whitespace :: "char \<Rightarrow> bool" where
  "is_whitespace c \<longleftrightarrow> c = CHR '' '' \<or> c = TAB"

definition is_line_end :: "char \<Rightarrow> bool" where
  "is_line_end c \<longleftrightarrow> c = LF \<or> c = NUL"

definition is_digit :: "char \<Rightarrow> bool" where
  "is_digit c \<longleftrightarrow> c \<ge> CHR ''0'' \<and> c \<le> CHR ''9''"

definition is_alpha :: "char \<Rightarrow> bool" where
  "is_alpha c \<longleftrightarrow> (c \<ge> CHR ''a'' \<and> c \<le> CHR ''z'') \<or> (c \<ge> CHR ''A'' \<and> c \<le> CHR ''Z'')"

definition is_numeral :: "char \<Rightarrow> bool" where
  "is_numeral c \<longleftrightarrow> is_digit c \<or> c = CHR ''.''"

definition is_alphanum :: "char \<Rightarrow> bool" where
  "is_alphanum c \<longleftrightarrow> is_digit c \<or> is_alpha c"

definition is_identifier_begin :: "char \<Rightarrow> bool" where
  "is_identifier_begin c \<longleftrightarrow> is_alpha c \<or> c = CHR ''_''"

definition is_identifier :: "char \<Rightarrow> bool" where
  "is_identifier c \<longleftrightarrow> is_alphanum c \<or> c = CHR ''_''"

subsection \<open>The pattern table\<close>

definition basic_matches :: "(string \<times> TokenType) list" where
  "basic_matches =
   [([LF], LineFeed),

    (''!='', NotEqual),
    (''<>'', NotEqual),
    (''<'', Inferior),
    (''<='', InferiorEqual),
    (''>'', Superior),
    (''>='', SuperiorEqual),

    (''{'', BraceLeft),
    (''}'', BraceRight),
    (''('', ParenthesisLeft),
    ('')'', ParenthesisRight),

    (''.'', Dot),
    ('','', Comma),
    ('';'', Semicolon),

    (''&&'', LogicAnd),
    (''||'', LogicOr),
    (''^^'', LogicXor),

    (''[@'', AccessorLeftArrayRef),
    (''[|'', AccessorLeftDSList),
    (''[?'', AccessorLeftDSMap),
    (''[#'', AccessorLeftDSGrid),
    (''['', AccessorLeftArrayValue),
    ('']'', AccessorRight),

    (''++'', Increment),
    (''--'', Decrement),

    (''+='', AssignAdd),
    (''-='', AssignSubtract),
    (''*='', AssignMultiply),
    (''/='', AssignDivide),
    (''&='', AssignAnd),
    (''|='', AssignOr),
    (''^='', AssignXor),

    (''<<='', AssignShiftLeft),
    (''>>='', AssignShiftRight),

    (''=='', DEqual),
    (''='', Equal),

    (''+'', Plus'),
    (''-'', Minus),
    (''*'', Multiply),
    (''/'', Divide),

    (''div'', EuclDivide),
    (''mod'', EuclModulo),
    (''%'', EuclModulo),

    (''&'', BitAnd),
    (''|'', BitOr),
    (''^'', BitXor),

    (''if'', If'),
    (''else if'', ElseIf),
    (''else'', Else),

    (''for'', For),
    (''while'', While),
    (''do'', Do),
    (''repeat'', Repeat),
    (''with'', With),

    (''var'', LocalVar)]"

subsection \<open>\<^verbatim>\<open>eof\<close> and \<^verbatim>\<open>readchar\<close>\<close>

definition eof :: "Lexer \<Rightarrow> bool" where
  "eof s \<longleftrightarrow> last_char s = NUL"

text \<open>
  \<^verbatim>\<open>readchar\<close>. At \<^verbatim>\<open>end(_source)\<close> the assignment \<^verbatim>\<open>_last_char = *_it\<close> reads the
  terminating null character of the \<^verbatim>\<open>std::string\<close>. The iterator starts at
  \<^verbatim>\<open>begin(_source)\<close> and moves only here, one step and only when it is not at the end, so
  it never passes the end; the model treats a position at or beyond the length as the end.
\<close>

definition readchar :: "Lexer \<Rightarrow> char result" where
  "readchar s =
    (if eof s then Inl (LexerException ''Reached EOF (lexer crash)'' (line s) (col s))
     else if it s < length (source s) then
       (let c = source s ! it s;
            s1 = s\<lparr>last_char := c, it := it s + 1\<rparr>
        in if c = LF then Inr (c, s1\<lparr>line := line s1 + 1, col := 0\<rparr>)
           else Inr (c, s1\<lparr>col := col s1 + 1\<rparr>))
     else Inr (NUL, s\<lparr>last_char := NUL\<rparr>))"

text \<open>\<^verbatim>\<open>return _last_token = t;\<close>\<close>

definition return_token :: "Token \<Rightarrow> Lexer \<Rightarrow> Token result" where
  "return_token t s = Inr (t, s\<lparr>last_token := t\<rparr>)"

subsection \<open>The loops of \<^verbatim>\<open>readtok\<close>\<close>

text \<open>
  Lines 174 to 179: the whitespace loop. \<open>Some t\<close> is the early \<^verbatim>\<open>return\<close> of the token
  \<open>t\<close> from \<^verbatim>\<open>readtok\<close>, \<open>None\<close> the normal exit of the loop.
\<close>

partial_function (option) skip_whitespace :: "Lexer \<Rightarrow> Token option result option" where
  "skip_whitespace s =
    (if is_whitespace (last_char s) then
       (case readchar s of
          Inl e \<Rightarrow> Some (Inl e)
        | Inr (c, s1) \<Rightarrow>
            if eof s1 then Some (Inr (Some (Token End (line s1) (col s1)), s1))
            else skip_whitespace s1)
     else Some (Inr (None, s)))"

text \<open>Line 188: \<^verbatim>\<open>while(!is_line_end(readchar()));\<close>\<close>

partial_function (option) line_comment :: "Lexer \<Rightarrow> unit result option" where
  "line_comment s =
    (case readchar s of
       Inl e \<Rightarrow> Some (Inl e)
     | Inr (c, s1) \<Rightarrow> if \<not> is_line_end c then line_comment s1 else Some (Inr ((), s1)))"

text \<open>Lines 195 to 199: the inner loop of the block comment, up to a \<^verbatim>\<open>*\<close>.\<close>

partial_function (option) block_comment_star :: "size_t \<Rightarrow> size_t \<Rightarrow> Lexer \<Rightarrow> unit result option" where
  "block_comment_star tline tcol s =
    (case readchar s of
       Inl e \<Rightarrow> Some (Inl e)
     | Inr (c, s1) \<Rightarrow>
         if c \<noteq> CHR ''*'' then
           (if eof s1 then Some (Inl (LexerException ''Multi-line comment reaches EOF'' tline tcol))
            else block_comment_star tline tcol s1)
         else Some (Inr ((), s1)))"

text \<open>Lines 194 to 200: the \<^verbatim>\<open>do ... while (readchar() != '/')\<close> around it.\<close>

partial_function (option) block_comment :: "size_t \<Rightarrow> size_t \<Rightarrow> Lexer \<Rightarrow> unit result option" where
  "block_comment tline tcol s =
    Option.bind (block_comment_star tline tcol s) (\<lambda>r.
      case r of
        Inl e \<Rightarrow> Some (Inl e)
      | Inr (u, s1) \<Rightarrow>
          (case readchar s1 of
             Inl e \<Rightarrow> Some (Inl e)
           | Inr (c, s2) \<Rightarrow>
               if c \<noteq> CHR ''/'' then block_comment tline tcol s2 else Some (Inr ((), s2))))"

text \<open>
  Lines 212 to 238: the loop of the string literal with the \<^verbatim>\<open>return\<close> after it; the
  result is what \<^verbatim>\<open>readtok\<close> returns.
\<close>

partial_function (option) string_literal :: "char \<Rightarrow> size_t \<Rightarrow> size_t \<Rightarrow> Lexer \<Rightarrow> Token result option" where
  "string_literal delim tline tcol s =
    (case readchar s of
       Inl e \<Rightarrow> Some (Inl e)
     | Inr (c, s1) \<Rightarrow>
         if c \<noteq> delim then
           (if last_char s1 = BACKSLASH then
              (case readchar s1 of
                 Inl e \<Rightarrow> Some (Inl e)
               | Inr (c2, s2) \<Rightarrow>
                   if eof s2 then Some (return_token (Token End tline tcol) s2)
                   else if last_char s2 = delim then
                     string_literal delim tline tcol (s2\<lparr>last_value := last_value s2 @ [delim]\<rparr>)
                   else if last_char s2 = CHR ''n'' then
                     string_literal delim tline tcol (s2\<lparr>last_value := last_value s2 @ [LF]\<rparr>)
                   else if last_char s2 = CHR ''#'' then
                     string_literal delim tline tcol (s2\<lparr>last_value := last_value s2 @ ''#''\<rparr>)
                   else
                     string_literal delim tline tcol
                       (s2\<lparr>last_value := last_value s2 @ [BACKSLASH, last_char s2]\<rparr>))
            else if last_char s1 = CHR ''#'' then
              string_literal delim tline tcol (s1\<lparr>last_value := last_value s1 @ [LF]\<rparr>)
            else
              string_literal delim tline tcol (s1\<lparr>last_value := last_value s1 @ [last_char s1]\<rparr>))
         else Some (return_token (Token StringLiteral tline tcol) s1))"

text \<open>Lines 264 to 266: \<^verbatim>\<open>do { _last_value += _last_char; } while (is_numeral(readchar()));\<close>\<close>

partial_function (option) numeral_loop :: "Lexer \<Rightarrow> unit result option" where
  "numeral_loop s =
    (case readchar (s\<lparr>last_value := last_value s @ [last_char s]\<rparr>) of
       Inl e \<Rightarrow> Some (Inl e)
     | Inr (c, s1) \<Rightarrow> if is_numeral c then numeral_loop s1 else Some (Inr ((), s1)))"

text \<open>Lines 276 to 278: the same loop with \<^verbatim>\<open>is_identifier\<close>.\<close>

partial_function (option) identifier_loop :: "Lexer \<Rightarrow> unit result option" where
  "identifier_loop s =
    (case readchar (s\<lparr>last_value := last_value s @ [last_char s]\<rparr>) of
       Inl e \<Rightarrow> Some (Inl e)
     | Inr (c, s1) \<Rightarrow> if is_identifier c then identifier_loop s1 else Some (Inr ((), s1)))"

text \<open>
  Line 246: \<^verbatim>\<open>_source.substr(_it - begin(_source) - 1, 4)\<close>. The position is a
  \<^verbatim>\<open>size_t\<close>: at \<^verbatim>\<open>_it = begin(_source)\<close> it wraps around to the largest value, and
  \<^verbatim>\<open>substr\<close> throws \<^verbatim>\<open>std::out_of_range\<close> for a position beyond the size.
\<close>

definition peekstr :: "Lexer \<Rightarrow> LexerException + string" where
  "peekstr s =
    (if it s = 0 \<or> it s - 1 > length (source s) then Inl out_of_range
     else Inr (take 4 (drop (it s - 1) (source s))))"

text \<open>
  Lines 247 to 256, the loop over the table: the first entry whose text equals the prefix of
  the same length of the window.
\<close>

fun first_match :: "(string \<times> TokenType) list \<Rightarrow> string \<Rightarrow> (string \<times> TokenType) option" where
  "first_match [] w = None"
| "first_match (m # ms) w =
     (if take (length (fst m)) w = fst m then Some m else first_match ms w)"

text \<open>Lines 251 and 252: \<^verbatim>\<open>readchar()\<close> called \<open>n\<close> times.\<close>

fun readchars :: "nat \<Rightarrow> Lexer \<Rightarrow> unit result" where
  "readchars 0 s = Inr ((), s)"
| "readchars (Suc n) s =
     (case readchar s of Inl e \<Rightarrow> Inl e | Inr (c, s1) \<Rightarrow> readchars n s1)"

subsection \<open>\<^verbatim>\<open>readtok\<close>\<close>

text \<open>Lines 246 to 284: the table, the numerals, the identifiers, and the last \<^verbatim>\<open>throw\<close>.\<close>

definition scan_token :: "size_t \<Rightarrow> size_t \<Rightarrow> Lexer \<Rightarrow> Token result option" where
  "scan_token tline tcol s =
    (case peekstr s of
       Inl e \<Rightarrow> Some (Inl e)
     | Inr w \<Rightarrow>
        (case first_match basic_matches w of
           Some m \<Rightarrow>
             (case readchars (length (fst m) - 1) s of
                Inl e \<Rightarrow> Some (Inl e)
              | Inr (u, s1) \<Rightarrow> Some (return_token (Token (snd m) tline tcol) s1))
         | None \<Rightarrow>
             (let s0 = s\<lparr>last_value := []\<rparr> in
              if is_numeral (last_char s0) then
                Option.bind (numeral_loop s0) (\<lambda>r.
                  case r of
                    Inl e \<Rightarrow> Some (Inl e)
                  | Inr (u, s1) \<Rightarrow>
                      Some (return_token (Token RealLiteral tline tcol) (s1\<lparr>current_parsed := False\<rparr>)))
              else if is_identifier_begin (last_char s0) then
                Option.bind (identifier_loop s0) (\<lambda>r.
                  case r of
                    Inl e \<Rightarrow> Some (Inl e)
                  | Inr (u, s1) \<Rightarrow>
                      Some (return_token (Token Identifier tline tcol) (s1\<lparr>current_parsed := False\<rparr>)))
              else Some (Inl (LexerException ''Unknown token'' tline tcol)))))"

text \<open>Lines 207 to 284: the string literal, the \<^verbatim>\<open>$\<close>, then the rest.\<close>

definition scan_literal :: "size_t \<Rightarrow> size_t \<Rightarrow> Lexer \<Rightarrow> Token result option" where
  "scan_literal tline tcol s =
    (if last_char s = DQUOTE \<or> last_char s = SQUOTE then
       string_literal (last_char s) tline tcol (s\<lparr>last_value := []\<rparr>)
     else if last_char s = CHR ''$'' then
       Some (Inl (LexerException ''Hex colors are a stub'' tline tcol))
     else scan_token tline tcol s)"

text \<open>
  Lines 164 to 171: skip the character that has been parsed already. \<open>Some t\<close> is again the
  early \<^verbatim>\<open>return\<close> of \<open>t\<close>.
\<close>

definition skip_parsed :: "Lexer \<Rightarrow> Token option result" where
  "skip_parsed s =
    (if current_parsed s then
       (case readchar s of
          Inl e \<Rightarrow> Inl e
        | Inr (c, s1) \<Rightarrow>
            if eof s1 then Inr (Some (Token End (line s1) (col s1)), s1) else Inr (None, s1))
     else Inr (None, s\<lparr>current_parsed := True\<rparr>))"

text \<open>The whole of \<^verbatim>\<open>readtok\<close>, lines 159 to 285.\<close>

partial_function (option) readtok :: "Lexer \<Rightarrow> Token result option" where
  "readtok s =
    (if eof s then Some (return_token (Token End (line s) (col s)) s)
     else
       (case skip_parsed s of
          Inl e \<Rightarrow> Some (Inl e)
        | Inr (Some t, s1) \<Rightarrow> Some (return_token t s1)
        | Inr (None, s1) \<Rightarrow>
            Option.bind (skip_whitespace s1) (\<lambda>r.
              case r of
                Inl e \<Rightarrow> Some (Inl e)
              | Inr (Some t, s2) \<Rightarrow> Some (return_token t s2)
              | Inr (None, s2) \<Rightarrow>
                  (if last_char s2 = CHR ''/'' then
                     (case readchar s2 of
                        Inl e \<Rightarrow> Some (Inl e)
                      | Inr (c, s3) \<Rightarrow>
                          if last_char s3 = CHR ''/'' then
                            Option.bind (line_comment s3) (\<lambda>r.
                              case r of
                                Inl e \<Rightarrow> Some (Inl e)
                              | Inr (u, s4) \<Rightarrow>
                                  if eof s4 then Some (return_token (Token End (line s2) (col s2)) s4)
                                  else scan_literal (line s2) (col s2) s4)
                          else if last_char s3 = CHR ''*'' then
                            Option.bind (block_comment (line s2) (col s2) s3) (\<lambda>r.
                              case r of
                                Inl e \<Rightarrow> Some (Inl e)
                              | Inr (u, s4) \<Rightarrow>
                                  Option.bind (readtok s4) (\<lambda>r.
                                    case r of
                                      Inl e \<Rightarrow> Some (Inl e)
                                    | Inr (t, s5) \<Rightarrow> Some (return_token t s5)))
                          else scan_literal (line s2) (col s2) (s3\<lparr>current_parsed := False\<rparr>))
                   else scan_literal (line s2) (col s2) s2))))"

declare skip_whitespace.simps [code]
declare line_comment.simps [code]
declare block_comment_star.simps [code]
declare block_comment.simps [code]
declare string_literal.simps [code]
declare numeral_loop.simps [code]
declare identifier_loop.simps [code]
declare readtok.simps [code]

subsection \<open>A lexer at the beginning of a buffer\<close>

text \<open>
  Modelled from the spec: the member initialisers of \<^verbatim>\<open>Lexer\<close> are in \<^verbatim>\<open>lexer.hpp\<close>, which
  is not among the sources; the constructor in \<^verbatim>\<open>lexer.cpp\<close> sets only \<^verbatim>\<open>_source\<close> and
  \<^verbatim>\<open>_it\<close>. The spec counts lines and columns from one, and a column is counted when its
  character is consumed, so the counters start at line 1 and column 0. The first call must
  read the first character, so \<^verbatim>\<open>_current_parsed\<close> starts as true, with a last character
  that is not the sentinel. Only the closed evaluations below use this state; the general
  theorems are about any state.
\<close>

definition new_Lexer :: "string \<Rightarrow> Lexer" where
  "new_Lexer src =
    \<lparr>source = src, it = 0, last_char = CHR '' '', line = 1, col = 0,
     current_parsed = True, last_value = [], last_token = Token End 0 0\<rparr>"

text \<open>What a call returned, without the state of the lexer after it.\<close>

definition outcome :: "Token result option \<Rightarrow> (LexerException + Token) option" where
  "outcome r = map_option (map_sum id fst) r"

subsection \<open>Notions for the statements and proofs\<close>

text \<open>The buffer is the same and the iterator has not moved back.\<close>

definition advances :: "Lexer \<Rightarrow> Lexer \<Rightarrow> bool" where
  "advances s s' \<longleftrightarrow> source s' = source s \<and> it s \<le> it s'"

text \<open>A returned token, if any, is \<open>End\<close> or \<open>StringLiteral\<close>.\<close>

definition literal_kind :: "Token result \<Rightarrow> bool" where
  "literal_kind r \<longleftrightarrow> (\<forall>t s'. r = Inr (t, s') \<longrightarrow> tok_type t = End \<or> tok_type t = StringLiteral)"

text \<open>A returned token, if any, is none of \<open>While\<close>, \<open>Repeat\<close>, \<open>ElseIf\<close>.\<close>

definition no_long_keyword :: "Token result \<Rightarrow> bool" where
  "no_long_keyword r \<longleftrightarrow>
     (\<forall>t s'. r = Inr (t, s') \<longrightarrow> tok_type t \<noteq> While \<and> tok_type t \<noteq> Repeat \<and> tok_type t \<noteq> ElseIf)"

subsection \<open>The input in front of the lexer\<close>

text \<open>
  \<open>next_input s inp\<close>: the end of input has not been observed, and \<open>inp\<close> is what the next
  call of \<^verbatim>\<open>readtok\<close> looks at. When \<^verbatim>\<open>_current_parsed\<close> is set, that is the buffer from the
  iterator on. When it is not set, the last character is looked at again, followed by the
  buffer from the iterator on; the table is matched against the buffer, so the last
  character must then be the one before the iterator, unless it is a blank (which is
  skipped). The state after any returned token and a fresh lexer are of these forms.
\<close>

definition next_input :: "Lexer \<Rightarrow> string \<Rightarrow> bool" where
  "next_input s inp \<longleftrightarrow> \<not> eof s \<and>
     (if current_parsed s then drop (it s) (source s) = inp
      else inp = last_char s # drop (it s) (source s) \<and>
           (is_whitespace (last_char s) \<or>
            (0 < it s \<and> it s \<le> length (source s) \<and> source s ! (it s - 1) = last_char s)))"

text \<open>
  The last character \<open>c\<close> is the one before the iterator and \<open>rest\<close> is the buffer from the
  iterator on.
\<close>

definition looking_at :: "Lexer \<Rightarrow> char \<Rightarrow> string \<Rightarrow> bool" where
  "looking_at s c rest \<longleftrightarrow>
     last_char s = c \<and> 0 < it s \<and> it s \<le> length (source s) \<and> source s ! (it s - 1) = c \<and>
     drop (it s) (source s) = rest"

text \<open>
  After a loop that reads one character too many: the end of input was observed if nothing
  or the sentinel followed, otherwise the character that followed is the last character.
\<close>

definition lookahead :: "Lexer \<Rightarrow> string \<Rightarrow> bool" where
  "lookahead s rest \<longleftrightarrow>
     (if rest = [] \<or> hd rest = NUL then eof s else looking_at s (hd rest) (tl rest))"

subsection \<open>String literals as the specification words them\<close>

text \<open>
  The decoding of the text between the delimiters, written from the words of the
  specification and not from the code: backslash and delimiter give the delimiter,
  backslash and \<^verbatim>\<open>n\<close> a line feed, backslash and \<^verbatim>\<open>#\<close> a \<^verbatim>\<open>#\<close>, backslash and any other
  character these two characters, a \<^verbatim>\<open>#\<close> alone a line feed, and any other character
  itself.
\<close>

fun spec_decode :: "char \<Rightarrow> string \<Rightarrow> string" where
  "spec_decode d [] = []"
| "spec_decode d [c] = (if c = CHR ''#'' then [LF] else [c])"
| "spec_decode d (c # e # cs) =
     (if c = BACKSLASH then
        (if e = d then [d] else if e = CHR ''n'' then [LF] else if e = CHR ''#'' then ''#''
         else [BACKSLASH, e]) @ spec_decode d cs
      else (if c = CHR ''#'' then LF else c) # spec_decode d (e # cs))"

text \<open>
  The text between the delimiters of a terminated literal: it holds no sentinel and no
  delimiter outside an escape, and it does not end in the middle of an escape, so the
  character after it is the closing delimiter.
\<close>

fun terminated_body :: "char \<Rightarrow> string \<Rightarrow> bool" where
  "terminated_body d [] = True"
| "terminated_body d [c] = (c \<noteq> d \<and> c \<noteq> NUL \<and> c \<noteq> BACKSLASH)"
| "terminated_body d (c # e # cs) =
     (c \<noteq> d \<and> c \<noteq> NUL \<and>
      (if c = BACKSLASH then e \<noteq> NUL \<and> terminated_body d cs else terminated_body d (e # cs)))"

subsection \<open>The compound operators that the table reaches\<close>

text \<open>
  The operators of two characters whose entry comes before every shorter entry with the
  same first character, and which do not begin with \<^verbatim>\<open>/\<close>.
\<close>

definition reachable_compounds :: "(string \<times> TokenType) list" where
  "reachable_compounds =
    [(''!='', NotEqual), (''<>'', NotEqual), (''=='', DEqual),
     (''&&'', LogicAnd), (''||'', LogicOr), (''^^'', LogicXor),
     (''++'', Increment), (''--'', Decrement),
     (''+='', AssignAdd), (''-='', AssignSubtract), (''*='', AssignMultiply),
     (''&='', AssignAnd), (''|='', AssignOr), (''^='', AssignXor)]"

section \<open>Properties\<close>

subsection \<open>\<^verbatim>\<open>readchar\<close>\<close>

lemma readchar_Inr:
  assumes "readchar s = Inr (c, s1)"
  shows "\<not> eof s \<and> source s1 = source s \<and> last_char s1 = c
    \<and> current_parsed s1 = current_parsed s \<and> last_value s1 = last_value s \<and> it s \<le> it s1
    \<and> (c \<noteq> NUL \<longrightarrow> it s < length (source s) \<and> it s1 = Suc (it s))"
  using assms by (auto simp: readchar_def Let_def split: if_splits)

lemma readchar_Inl: "readchar s = Inl e \<Longrightarrow> eof s"
  by (auto simp: readchar_def Let_def split: if_splits)

lemma readchar_eof:
  "eof s \<Longrightarrow> readchar s = Inl (LexerException ''Reached EOF (lexer crash)'' (line s) (col s))"
  by (simp add: readchar_def)

text \<open>
  Claim C8. A call of \<^verbatim>\<open>readchar\<close> that consumes a character (the end of input has not
  been observed and the iterator is not at the end) returns that character; if it is a
  line feed, the line counter is incremented and the column counter becomes zero; otherwise
  the column counter is incremented and the line counter stays. The counters are
  \<^verbatim>\<open>size_t\<close> and the increment is the one of \<^verbatim>\<open>size_t\<close>: as a number the counter grows by
  exactly one unless it holds the largest value, from which \<^verbatim>\<open>++\<close> wraps around to zero.
  This holds for every consumed character, so also for every one that is not the sentinel.
\<close>

theorem readchar_counts_position:
  assumes "\<not> eof s" and "it s < length (source s)"
  shows "\<exists>s'. readchar s = Inr (source s ! it s, s') \<and> it s' = it s + 1 \<and>
    (if source s ! it s = LF then
       line s' = line s + 1 \<and> col s' = 0 \<and>
       (unat (line s) < 2 ^ 64 - 1 \<longrightarrow> unat (line s') = unat (line s) + 1)
     else
       line s' = line s \<and> col s' = col s + 1 \<and>
       (unat (col s) < 2 ^ 64 - 1 \<longrightarrow> unat (col s') = unat (col s) + 1))"
proof -
  have inc: "unat (x + 1) = unat x + 1" if "unat x < 2 ^ 64 - 1" for x :: size_t
  proof -
    have "unat x + unat (1 :: size_t) < 2 ^ LENGTH(64)" using that by simp
    then show ?thesis by (simp add: unat_add_lem [THEN iffD1])
  qed
  show ?thesis using assms inc by (simp add: readchar_def Let_def)
qed

theorem readchar_counts_position_witness:
  "(\<exists>s'. readchar (new_Lexer [CHR ''a'', LF]) = Inr (CHR ''a'', s') \<and>
      line s' = 1 \<and> col s' = 1 \<and> unat (col s') = 1) \<and>
   (\<exists>s'. readchar ((new_Lexer [CHR ''a'', LF])\<lparr>it := 1, col := 1\<rparr>) = Inr (LF, s') \<and>
      line s' = 2 \<and> col s' = 0 \<and> unat (line s') = Suc (Suc 0))"
  using readchar_counts_position [of "new_Lexer [CHR ''a'', LF]"]
    readchar_counts_position [of "(new_Lexer [CHR ''a'', LF])\<lparr>it := 1, col := 1\<rparr>"]
  by (auto simp: new_Lexer_def eof_def)

text \<open>At the largest value the increment wraps around, as \<^verbatim>\<open>++_col\<close> does.\<close>

lemma readchar_col_wraps:
  "\<exists>s'. readchar ((new_Lexer ''a'')\<lparr>col := - 1\<rparr>) = Inr (CHR ''a'', s') \<and> col s' = 0"
  by (simp add: readchar_def new_Lexer_def eof_def Let_def)

subsection \<open>The end of input\<close>

text \<open>
  Claim C7. Once the sentinel has been observed (\<^verbatim>\<open>eof()\<close> holds), a call of \<^verbatim>\<open>readtok\<close>
  returns an \<open>End\<close> token at the current line and column and throws nothing; it changes
  nothing but \<^verbatim>\<open>_last_token\<close>, so \<^verbatim>\<open>eof()\<close> holds again after the call, with the same
  position, and the same is true of every later call.
\<close>

theorem readtok_eof_idempotent:
  assumes "eof s"
  shows "readtok s = Some (Inr (Token End (line s) (col s), s\<lparr>last_token := Token End (line s) (col s)\<rparr>))
    \<and> eof (s\<lparr>last_token := Token End (line s) (col s)\<rparr>)"
  using assms by (subst readtok.simps) (simp add: return_token_def eof_def)

theorem readtok_eof_idempotent_witness:
  "eof ((new_Lexer [])\<lparr>last_char := NUL\<rparr>) \<and>
   outcome (readtok ((new_Lexer [])\<lparr>last_char := NUL\<rparr>)) = Some (Inr (Token End 1 0))"
  using readtok_eof_idempotent [of "(new_Lexer [])\<lparr>last_char := NUL\<rparr>"]
  by (simp add: new_Lexer_def eof_def outcome_def)

subsection \<open>Every loop ends\<close>

lemma advances_refl: "advances s s" by (simp add: advances_def)

lemma advances_trans: "advances s s1 \<Longrightarrow> advances s1 s2 \<Longrightarrow> advances s s2" by (simp add: advances_def)

lemma advances_measure:
  "advances s s' \<Longrightarrow> length (source s') - it s' \<le> length (source s) - it s"
  by (simp add: advances_def diff_le_mono2)

lemma readchar_advances: "readchar s = Inr (c, s1) \<Longrightarrow> advances s s1"
  using readchar_Inr[of s c s1] by (simp add: advances_def)

lemma readchar_less:
  assumes "readchar s = Inr (c, s1)" "c \<noteq> NUL"
  shows "length (source s1) - it s1 < length (source s) - it s"
  using readchar_Inr[OF assms(1)] assms(2) by auto

lemma skip_whitespace_returns:
  "\<exists>r. skip_whitespace s = Some r \<and>
     (\<forall>x s'. r = Inr (x, s') \<longrightarrow> advances s s' \<and> (\<forall>t. x = Some t \<longrightarrow> tok_type t = End))"
proof (induction "length (source s) - it s" arbitrary: s rule: less_induct)
  case less
  show ?case
  proof (cases "is_whitespace (last_char s)")
    case False
    then show ?thesis by (subst skip_whitespace.simps) (simp add: advances_refl)
  next
    case ws: True
    show ?thesis
    proof (cases "readchar s")
      case (Inl e)
      then show ?thesis using ws by (subst skip_whitespace.simps) simp
    next
      case (Inr p)
      obtain c s1 where rc: "readchar s = Inr (c, s1)" using Inr by (cases p) simp
      show ?thesis
      proof (cases "eof s1")
        case True
        then show ?thesis using ws rc readchar_advances[OF rc]
          by (subst skip_whitespace.simps) simp
      next
        case False
        then have "c \<noteq> NUL" using readchar_Inr[OF rc] by (simp add: eof_def)
        from less[OF readchar_less[OF rc this]] obtain r where
          r: "skip_whitespace s1 = Some r"
          "\<forall>x s'. r = Inr (x, s') \<longrightarrow> advances s1 s' \<and> (\<forall>t. x = Some t \<longrightarrow> tok_type t = End)" by blast
        show ?thesis using ws rc False r advances_trans[OF readchar_advances[OF rc]]
          by (subst skip_whitespace.simps) auto
      qed
    qed
  qed
qed

lemma line_comment_returns:
  "\<exists>r. line_comment s = Some r \<and> (\<forall>x s'. r = Inr (x, s') \<longrightarrow> advances s s')"
proof (induction "length (source s) - it s" arbitrary: s rule: less_induct)
  case less
  show ?case
  proof (cases "readchar s")
    case (Inl e)
    then show ?thesis by (subst line_comment.simps) simp
  next
    case (Inr p)
    obtain c s1 where rc: "readchar s = Inr (c, s1)" using Inr by (cases p) simp
    show ?thesis
    proof (cases "is_line_end c")
      case True
      then show ?thesis using rc readchar_advances[OF rc]
        by (subst line_comment.simps) simp
    next
      case False
      then have "c \<noteq> NUL" by (simp add: is_line_end_def)
      from less[OF readchar_less[OF rc this]] obtain r where
        r: "line_comment s1 = Some r" "\<forall>x s'. r = Inr (x, s') \<longrightarrow> advances s1 s'" by blast
      show ?thesis using rc False r advances_trans[OF readchar_advances[OF rc]]
        by (subst line_comment.simps) auto
    qed
  qed
qed

lemma block_comment_star_returns:
  "\<exists>r. block_comment_star tln tcl s = Some r \<and> (\<forall>x s'. r = Inr (x, s') \<longrightarrow> advances s s' \<and> \<not> eof s')"
proof (induction "length (source s) - it s" arbitrary: s rule: less_induct)
  case less
  show ?case
  proof (cases "readchar s")
    case (Inl e)
    then show ?thesis by (subst block_comment_star.simps) simp
  next
    case (Inr p)
    obtain c s1 where rc: "readchar s = Inr (c, s1)" using Inr by (cases p) simp
    show ?thesis
    proof (cases "c \<noteq> CHR ''*'' \<and> \<not> eof s1")
      case False
      then show ?thesis using rc readchar_advances[OF rc] readchar_Inr[OF rc]
        by (subst block_comment_star.simps) (auto simp: eof_def)
    next
      case True
      then have "c \<noteq> NUL" using readchar_Inr[OF rc] by (simp add: eof_def)
      from less[OF readchar_less[OF rc this]] obtain r where
        r: "block_comment_star tln tcl s1 = Some r" "\<forall>x s'. r = Inr (x, s') \<longrightarrow> advances s1 s' \<and> \<not> eof s'" by blast
      show ?thesis using rc True r advances_trans[OF readchar_advances[OF rc]]
        by (subst block_comment_star.simps) auto
    qed
  qed
qed

lemma block_comment_returns:
  "\<exists>r. block_comment tln tcl s = Some r \<and> (\<forall>x s'. r = Inr (x, s') \<longrightarrow> advances s s')"
proof (induction "length (source s) - it s" arbitrary: s rule: less_induct)
  case less
  obtain r0 where r0: "block_comment_star tln tcl s = Some r0"
    "\<forall>x s'. r0 = Inr (x, s') \<longrightarrow> advances s s' \<and> \<not> eof s'"
    using block_comment_star_returns by blast
  show ?case
  proof (cases r0)
    case (Inl e)
    then show ?thesis using r0 by (subst block_comment.simps) simp
  next
    case (Inr p)
    obtain u s1 where p: "r0 = Inr (u, s1)" using Inr by (cases p) simp
    have a1: "advances s s1" "\<not> eof s1" using r0 p by auto
    show ?thesis
    proof (cases "readchar s1")
      case (Inl e)
      then show ?thesis using r0 p by (subst block_comment.simps) simp
    next
      case (Inr q)
      obtain c s2 where rc: "readchar s1 = Inr (c, s2)" using Inr by (cases q) simp
      have a2: "advances s s2" using a1 readchar_advances[OF rc] advances_trans by blast
      show ?thesis
      proof (cases "c \<noteq> CHR ''/''")
        case False
        then show ?thesis using r0 p rc a2 by (subst block_comment.simps) simp
      next
        case True
        show ?thesis
        proof (cases "c = NUL")
          case True
          then have "eof s2" using readchar_Inr[OF rc] by (simp add: eof_def)
          then have "block_comment_star tln tcl s2 = Some (Inl (LexerException ''Reached EOF (lexer crash)'' (line s2) (col s2)))"
            by (subst block_comment_star.simps) (simp add: readchar_eof)
          then have "block_comment tln tcl s2 = Some (Inl (LexerException ''Reached EOF (lexer crash)'' (line s2) (col s2)))"
            by (subst block_comment.simps) simp
          then show ?thesis using r0 p rc \<open>c \<noteq> CHR ''/''\<close> by (subst block_comment.simps) simp
        next
          case False
          have "length (source s2) - it s2 < length (source s) - it s"
            using readchar_less[OF rc False] advances_measure[OF a1(1)] by linarith
          from less[OF this] obtain r where
            r: "block_comment tln tcl s2 = Some r" "\<forall>x s'. r = Inr (x, s') \<longrightarrow> advances s2 s'" by blast
          show ?thesis using r0 p rc True r advances_trans[OF a2]
            by (subst block_comment.simps) auto
        qed
      qed
    qed
  qed
qed

lemma string_literal_eof:
  "eof s \<Longrightarrow> string_literal d tln tcl s =
     Some (Inl (LexerException ''Reached EOF (lexer crash)'' (line s) (col s)))"
  by (subst string_literal.simps) (simp add: readchar_eof)

lemma string_literal_returns:
  "\<exists>r. string_literal d tln tcl s = Some r \<and> literal_kind r"
proof (induction "length (source s) - it s" arbitrary: s rule: less_induct)
  case less
  show ?case
  proof (cases "readchar s")
    case (Inl e)
    then show ?thesis by (subst string_literal.simps) (simp add: literal_kind_def)
  next
    case (Inr p)
    obtain c s1 where rc: "readchar s = Inr (c, s1)" using Inr by (cases p) simp
    have lc: "last_char s1 = c" using readchar_Inr[OF rc] by simp
    show ?thesis
    proof (cases "c = d")
      case True
      then show ?thesis using rc
        by (subst string_literal.simps) (simp add: literal_kind_def return_token_def)
    next
      case nd: False
      show ?thesis
      proof (cases "c = NUL")
        case True
        have "\<And>v. string_literal d tln tcl (s1\<lparr>last_value := v\<rparr>) =
            Some (Inl (LexerException ''Reached EOF (lexer crash)'' (line s1) (col s1)))"
          using string_literal_eof[of "s1\<lparr>last_value := v\<rparr>" for v] lc True by (simp add: eof_def)
        then show ?thesis using rc nd lc True
          by (subst string_literal.simps) (simp add: literal_kind_def)
      next
        case nz: False
        have m1: "length (source s1) - it s1 < length (source s) - it s"
          by (rule readchar_less[OF rc nz])
        have ih1: "\<And>v. \<exists>r. string_literal d tln tcl (s1\<lparr>last_value := v\<rparr>) = Some r \<and> literal_kind r"
          using less[of "s1\<lparr>last_value := v\<rparr>" for v] m1 by simp
        show ?thesis
        proof (cases "c = BACKSLASH")
          case False
          then show ?thesis using rc nd lc ih1
            by (subst string_literal.simps) simp
        next
          case bs: True
          show ?thesis
          proof (cases "readchar s1")
            case (Inl e)
            then show ?thesis using rc nd lc bs
              by (subst string_literal.simps) (simp add: literal_kind_def)
          next
            case (Inr q)
            obtain c2 s2 where rc2: "readchar s1 = Inr (c2, s2)" using Inr by (cases q) simp
            have "length (source s2) - it s2 \<le> length (source s1) - it s1"
              by (rule advances_measure[OF readchar_advances[OF rc2]])
            then have ih2: "\<And>v. \<exists>r. string_literal d tln tcl (s2\<lparr>last_value := v\<rparr>) = Some r \<and> literal_kind r"
              using less[of "s2\<lparr>last_value := v\<rparr>" for v] m1 by simp
            show ?thesis using rc nd lc bs rc2 ih2
              by (subst string_literal.simps) (simp add: literal_kind_def return_token_def)
          qed
        qed
      qed
    qed
  qed
qed

lemma numeral_loop_returns:
  "\<exists>r. numeral_loop s = Some r"
proof (induction "length (source s) - it s" arbitrary: s rule: less_induct)
  case less
  let ?s0 = "s\<lparr>last_value := last_value s @ [last_char s]\<rparr>"
  show ?case
  proof (cases "readchar ?s0")
    case (Inl e)
    then show ?thesis by (subst numeral_loop.simps) simp
  next
    case (Inr p)
    obtain c s1 where rc: "readchar ?s0 = Inr (c, s1)" using Inr by (cases p) simp
    show ?thesis
    proof (cases "is_numeral c")
      case False
      then show ?thesis using rc by (subst numeral_loop.simps) simp
    next
      case True
      then have "c \<noteq> NUL" by (auto simp: is_numeral_def is_digit_def)
      from readchar_less[OF rc this] have "length (source s1) - it s1 < length (source s) - it s"
        by simp
      from less[OF this] show ?thesis using rc True by (subst numeral_loop.simps) simp
    qed
  qed
qed

lemma identifier_loop_returns:
  "\<exists>r. identifier_loop s = Some r"
proof (induction "length (source s) - it s" arbitrary: s rule: less_induct)
  case less
  let ?s0 = "s\<lparr>last_value := last_value s @ [last_char s]\<rparr>"
  show ?case
  proof (cases "readchar ?s0")
    case (Inl e)
    then show ?thesis by (subst identifier_loop.simps) simp
  next
    case (Inr p)
    obtain c s1 where rc: "readchar ?s0 = Inr (c, s1)" using Inr by (cases p) simp
    show ?thesis
    proof (cases "is_identifier c")
      case False
      then show ?thesis using rc by (subst identifier_loop.simps) simp
    next
      case True
      then have "c \<noteq> NUL" by (auto simp: is_identifier_def is_alphanum_def is_alpha_def is_digit_def)
      from readchar_less[OF rc this] have "length (source s1) - it s1 < length (source s) - it s"
        by simp
      from less[OF this] show ?thesis using rc True by (subst identifier_loop.simps) simp
    qed
  qed
qed

lemma no_long_keyword_simps:
  "no_long_keyword (Inl e)"
  "no_long_keyword (Inr (t, s)) \<longleftrightarrow> tok_type t \<noteq> While \<and> tok_type t \<noteq> Repeat \<and> tok_type t \<noteq> ElseIf"
  "no_long_keyword (return_token t s) \<longleftrightarrow> tok_type t \<noteq> While \<and> tok_type t \<noteq> Repeat \<and> tok_type t \<noteq> ElseIf"
  by (simp_all add: no_long_keyword_def return_token_def)

lemma literal_kind_no_long: "literal_kind r \<Longrightarrow> no_long_keyword r"
  by (auto simp: literal_kind_def no_long_keyword_def)

lemma first_match_Some:
  "first_match ms w = Some m \<Longrightarrow> m \<in> set ms \<and> take (length (fst m)) w = fst m"
  by (induction ms) (auto split: if_splits)

lemma long_patterns:
  "m \<in> set basic_matches \<Longrightarrow> snd m = While \<or> snd m = Repeat \<or> snd m = ElseIf \<Longrightarrow> 4 < length (fst m)"
  by (auto simp: basic_matches_def)

lemma peekstr_length: "peekstr s = Inr w \<Longrightarrow> length w \<le> 4"
  by (auto simp: peekstr_def split: if_splits)

lemma take_eq_length: "take n w = p \<Longrightarrow> length p = n \<Longrightarrow> n \<le> length w"
  by (drule arg_cong[where f = length]) simp

lemma first_match_short:
  assumes "peekstr s = Inr w" "first_match basic_matches w = Some m"
  shows "snd m \<noteq> While \<and> snd m \<noteq> Repeat \<and> snd m \<noteq> ElseIf"
proof -
  from first_match_Some[OF assms(2)] have m: "m \<in> set basic_matches" "take (length (fst m)) w = fst m"
    by simp_all
  from take_eq_length[OF m(2)] peekstr_length[OF assms(1)] have "length (fst m) \<le> 4" by simp
  then have "\<not> 4 < length (fst m)" by simp
  with long_patterns[OF m(1)] show ?thesis by blast
qed

lemma scan_token_returns:
  "\<exists>r. scan_token tln tcl s = Some r \<and> no_long_keyword r"
proof (cases "peekstr s")
  case (Inl e)
  then show ?thesis by (simp add: scan_token_def no_long_keyword_simps)
next
  case (Inr w)
  show ?thesis
  proof (cases "first_match basic_matches w")
    case (Some m)
    from first_match_short[OF Inr Some] show ?thesis using Inr Some
      by (cases "readchars (length (fst m) - 1) s")
        (auto simp: scan_token_def no_long_keyword_simps)
  next
    case None
    show ?thesis
    proof (cases "is_numeral (last_char s)")
      case True
      obtain r1 where r1: "numeral_loop (s\<lparr>last_value := []\<rparr>) = Some r1"
        using numeral_loop_returns by blast
      show ?thesis using Inr None True r1
        by (cases r1) (auto simp: scan_token_def Let_def no_long_keyword_simps)
    next
      case nn: False
      show ?thesis
      proof (cases "is_identifier_begin (last_char s)")
        case True
        obtain r2 where r2: "identifier_loop (s\<lparr>last_value := []\<rparr>) = Some r2"
          using identifier_loop_returns by blast
        show ?thesis using Inr None nn True r2
          by (cases r2) (auto simp: scan_token_def Let_def no_long_keyword_simps)
      next
        case False
        then show ?thesis using Inr None nn
          by (simp add: scan_token_def Let_def no_long_keyword_simps)
      qed
    qed
  qed
qed

lemma scan_literal_returns:
  "\<exists>r. scan_literal tln tcl s = Some r \<and> no_long_keyword r"
  using string_literal_returns[of "last_char s" tln tcl "s\<lparr>last_value := []\<rparr>"]
    scan_token_returns[of tln tcl s]
  by (auto simp: scan_literal_def no_long_keyword_simps literal_kind_no_long)

lemma skip_parsed_cases:
  "skip_parsed s = Inr (x, s1) \<Longrightarrow> advances s s1 \<and> (\<forall>t. x = Some t \<longrightarrow> tok_type t = End)"
  by (auto simp: skip_parsed_def advances_def split: if_splits sum.splits dest: readchar_Inr)

lemma readtok_returns:
  "\<exists>r. readtok s = Some r \<and> no_long_keyword r"
proof (induction "length (source s) - it s" arbitrary: s rule: less_induct)
  case less
  show ?case
  proof (cases "eof s")
    case True
    then show ?thesis by (subst readtok.simps) (simp add: no_long_keyword_simps)
  next
    case ne: False
    show ?thesis
    proof (cases "skip_parsed s")
      case (Inl e)
      then show ?thesis using ne by (subst readtok.simps) (simp add: no_long_keyword_simps)
    next
      case (Inr p1)
      obtain x1 s1 where sp: "skip_parsed s = Inr (x1, s1)" using Inr by (cases p1) simp
      note f1 = skip_parsed_cases[OF sp]
      show ?thesis
      proof (cases x1)
        case (Some t)
        then show ?thesis using ne sp f1
          by (subst readtok.simps) (simp add: no_long_keyword_simps)
      next
        case x1: None
        obtain r1 where sw: "skip_whitespace s1 = Some r1"
          and a1: "\<forall>x s'. r1 = Inr (x, s') \<longrightarrow> advances s1 s' \<and> (\<forall>t. x = Some t \<longrightarrow> tok_type t = End)"
          using skip_whitespace_returns by blast
        show ?thesis
        proof (cases r1)
          case (Inl e)
          then show ?thesis using ne sp x1 sw
            by (subst readtok.simps) (simp add: no_long_keyword_simps)
        next
          case (Inr p2)
          obtain x2 s2 where r1: "r1 = Inr (x2, s2)" using Inr by (cases p2) simp
          have "advances s1 s2" using a1 r1 by simp
          with f1 have a2: "advances s s2" by (simp add: advances_def)
          show ?thesis
          proof (cases x2)
            case (Some t)
            then have "tok_type t = End" using a1 r1 by simp
            then show ?thesis using ne sp x1 sw r1 Some
              by (subst readtok.simps) (simp add: no_long_keyword_simps)
          next
            case x2: None
            note pre = ne sp x1 sw r1 x2
            have rl: "\<exists>r. scan_literal (line s2) (col s2) z = Some r \<and> no_long_keyword r" for z
              by (rule scan_literal_returns)
            show ?thesis
            proof (cases "last_char s2 = CHR ''/''")
              case False
              then show ?thesis using pre rl[of s2] by (subst readtok.simps) simp
            next
              case slash: True
              show ?thesis
              proof (cases "readchar s2")
                case (Inl e)
                then show ?thesis using pre slash
                  by (subst readtok.simps) (simp add: no_long_keyword_simps)
              next
                case (Inr p3)
                obtain c s3 where rc: "readchar s2 = Inr (c, s3)" using Inr by (cases p3) simp
                have lc: "last_char s3 = c" using readchar_Inr[OF rc] by simp
                consider (line) "c = CHR ''/''" | (block) "c = CHR ''*''"
                  | (other) "c \<noteq> CHR ''/''" "c \<noteq> CHR ''*''" by blast
                then show ?thesis
                proof cases
                  case line
                  obtain r4 where r4: "line_comment s3 = Some r4"
                    using line_comment_returns by blast
                  show ?thesis
                  proof (cases r4)
                    case (Inl e)
                    then show ?thesis using pre slash rc lc line r4
                      by (subst readtok.simps) (simp add: no_long_keyword_simps)
                  next
                    case (Inr p4)
                    obtain u s4 where p4: "r4 = Inr (u, s4)" using Inr by (cases p4) simp
                    show ?thesis using pre slash rc lc line r4 p4 rl[of s4]
                      by (subst readtok.simps) (simp add: no_long_keyword_simps)
                  qed
                next
                  case block
                  obtain r4 where r4: "block_comment (line s2) (col s2) s3 = Some r4"
                    and a4: "\<forall>x s'. r4 = Inr (x, s') \<longrightarrow> advances s3 s'"
                    using block_comment_returns by blast
                  show ?thesis
                  proof (cases r4)
                    case (Inl e)
                    then show ?thesis using pre slash rc lc block r4
                      by (subst readtok.simps) (simp add: no_long_keyword_simps)
                  next
                    case (Inr p4)
                    obtain u s4 where p4: "r4 = Inr (u, s4)" using Inr by (cases p4) simp
                    have "length (source s3) - it s3 < length (source s2) - it s2"
                      using readchar_less[OF rc] block by simp
                    moreover have "length (source s4) - it s4 \<le> length (source s3) - it s3"
                      using a4 p4 by (simp add: advances_measure)
                    moreover have "length (source s2) - it s2 \<le> length (source s) - it s"
                      using a2 by (rule advances_measure)
                    ultimately have "length (source s4) - it s4 < length (source s) - it s"
                      by linarith
                    from less[OF this] obtain r5 where r5: "readtok s4 = Some r5" "no_long_keyword r5"
                      by blast
                    show ?thesis
                    proof (cases r5)
                      case (Inl e)
                      then show ?thesis using pre slash rc lc block r4 p4 r5
                        by (subst readtok.simps) (simp add: no_long_keyword_simps)
                    next
                      case (Inr p5)
                      obtain t5 s5 where p5: "r5 = Inr (t5, s5)" using Inr by (cases p5) simp
                      show ?thesis using pre slash rc lc block r4 p4 r5 p5
                        by (subst readtok.simps) (simp add: no_long_keyword_simps)
                    qed
                  qed
                next
                  case other
                  then show ?thesis using pre slash rc lc rl[of "s3\<lparr>current_parsed := False\<rparr>"]
                    by (subst readtok.simps) simp
                qed
              qed
            qed
          qed
        qed
      qed
    qed
  qed
qed

text \<open>
  Claim C10. For every buffer and every state of the lexer, a call of \<^verbatim>\<open>readtok\<close> ends:
  it throws an exception or returns one token. The loops inside it end as well, from any
  state: the whitespace loop, the loops of the line comment and of the block comment, the
  loop of the string literal, the loops of the numeral and of the identifier. In the model
  a call that does not end has the value \<open>None\<close>; the self-call after a block comment is
  the recursion of \<open>readtok\<close>.
\<close>

theorem readtok_terminates:
  "((\<exists>e. readtok s = Some (Inl e)) \<or> (\<exists>t s'. readtok s = Some (Inr (t, s')))) \<and>
   skip_whitespace s \<noteq> None \<and> line_comment s \<noteq> None \<and>
   block_comment_star tln tcl s \<noteq> None \<and> block_comment tln tcl s \<noteq> None \<and>
   string_literal d tln tcl s \<noteq> None \<and> numeral_loop s \<noteq> None \<and>
   identifier_loop s \<noteq> None"
proof -
  obtain r where r: "readtok s = Some r" using readtok_returns by blast
  have "(\<exists>e. readtok s = Some (Inl e)) \<or> (\<exists>t s'. readtok s = Some (Inr (t, s')))"
    using r by (cases r) auto
  moreover have "skip_whitespace s \<noteq> None" using skip_whitespace_returns[of s] by auto
  moreover have "line_comment s \<noteq> None" using line_comment_returns[of s] by auto
  moreover have "block_comment_star tln tcl s \<noteq> None"
    using block_comment_star_returns[of tln tcl s] by auto
  moreover have "block_comment tln tcl s \<noteq> None"
    using block_comment_returns[of tln tcl s] by auto
  moreover have "string_literal d tln tcl s \<noteq> None"
    using string_literal_returns[of d tln tcl s] by auto
  moreover have "numeral_loop s \<noteq> None" using numeral_loop_returns[of s] by auto
  moreover have "identifier_loop s \<noteq> None" using identifier_loop_returns[of s] by auto
  ultimately show ?thesis by blast
qed

subsection \<open>From a call to the first character of the next lexeme\<close>

lemma drop_eq_Cons:
  assumes "drop n xs = y # t"
  shows "n < length xs \<and> xs ! n = y \<and> drop (Suc n) xs = t"
proof -
  have n: "n < length xs" using assms by (cases "n < length xs") auto
  from Cons_nth_drop_Suc[OF n] assms show ?thesis using n by simp
qed

lemma readchar_Cons:
  assumes "\<not> eof s" "drop (it s) (source s) = y # t"
  shows "\<exists>s1. readchar s = Inr (y, s1) \<and> looking_at s1 y t \<and> source s1 = source s \<and>
    current_parsed s1 = current_parsed s \<and> last_value s1 = last_value s"
  using assms(1) drop_eq_Cons[OF assms(2)]
  by (auto simp: readchar_def Let_def looking_at_def)

lemma readchar_Nil:
  assumes "\<not> eof s" "drop (it s) (source s) = []"
  shows "readchar s = Inr (NUL, s\<lparr>last_char := NUL\<rparr>)"
  using assms by (simp add: readchar_def)

lemma looking_at_update [simp]:
  "looking_at (s\<lparr>last_value := v\<rparr>) c rest = looking_at s c rest"
  "looking_at (s\<lparr>current_parsed := b\<rparr>) c rest = looking_at s c rest"
  "looking_at (s\<lparr>last_token := t\<rparr>) c rest = looking_at s c rest"
  by (simp_all add: looking_at_def)

lemma eof_update [simp]:
  "eof (s\<lparr>last_value := v\<rparr>) = eof s"
  "eof (s\<lparr>current_parsed := b\<rparr>) = eof s"
  "eof (s\<lparr>last_token := t\<rparr>) = eof s"
  by (simp_all add: eof_def)

lemma looking_at_not_eof: "looking_at s c rest \<Longrightarrow> c \<noteq> NUL \<Longrightarrow> \<not> eof s"
  by (simp add: looking_at_def eof_def)

lemma is_whitespace_not_NUL: "is_whitespace c \<Longrightarrow> c \<noteq> NUL"
  by (auto simp: is_whitespace_def)

text \<open>The whitespace loop over a run of blanks in front of a character that is none.\<close>

lemma skip_whitespace_run:
  assumes "last_char s = x" "x # t = ws @ c # rest" "\<forall>w\<in>set ws. is_whitespace w"
    "\<not> is_whitespace c" "c \<noteq> NUL" "drop (it s) (source s) = t"
    "is_whitespace x \<or> looking_at s x t"
  shows "\<exists>s2. skip_whitespace s = Some (Inr (None, s2)) \<and> looking_at s2 c rest \<and>
    source s2 = source s \<and> current_parsed s2 = current_parsed s \<and> last_value s2 = last_value s"
  using assms
proof (induction ws arbitrary: s x t)
  case Nil
  then have "x = c" "t = rest" by simp_all
  with Nil show ?case by (subst skip_whitespace.simps) simp
next
  case (Cons w ws)
  then have x: "x = w" "is_whitespace x" and t: "t = ws @ c # rest" by simp_all
  obtain y t' where yt: "y # t' = ws @ c # rest" by (cases ws) auto
  have yn: "y \<noteq> NUL" using yt Cons.prems(3,5) is_whitespace_not_NUL by (cases ws) auto
  have ne: "\<not> eof s" using Cons.prems(1) x is_whitespace_not_NUL by (auto simp: eof_def)
  have "drop (it s) (source s) = y # t'" using Cons.prems(6) t yt by simp
  from readchar_Cons[OF ne this] obtain s1 where
    s1: "readchar s = Inr (y, s1)" "looking_at s1 y t'" "source s1 = source s"
      "current_parsed s1 = current_parsed s" "last_value s1 = last_value s" by blast
  have ne1: "\<not> eof s1" using looking_at_not_eof[OF s1(2) yn] .
  have "\<exists>s2. skip_whitespace s1 = Some (Inr (None, s2)) \<and> looking_at s2 c rest \<and>
    source s2 = source s1 \<and> current_parsed s2 = current_parsed s1 \<and> last_value s2 = last_value s1"
  proof (rule Cons.IH[of s1 y t'])
    show "last_char s1 = y" using s1(2) by (simp add: looking_at_def)
    show "y # t' = ws @ c # rest" by (rule yt)
    show "\<forall>w\<in>set ws. is_whitespace w" using Cons.prems(3) by simp
    show "\<not> is_whitespace c" "c \<noteq> NUL" by (rule Cons.prems)+
    show "drop (it s1) (source s1) = t'" using s1(2) by (simp add: looking_at_def)
    show "is_whitespace y \<or> looking_at s1 y t'" using s1(2) by simp
  qed
  then obtain s2 where s2: "skip_whitespace s1 = Some (Inr (None, s2))" "looking_at s2 c rest"
    "source s2 = source s1" "current_parsed s2 = current_parsed s1" "last_value s2 = last_value s1"
    by blast
  show ?case using Cons.prems(1) x s1 ne1 s2 by (subst skip_whitespace.simps) simp
qed

text \<open>A call of \<open>readtok\<close> up to the dispatch on the first character of the lexeme.\<close>

lemma readtok_reaches:
  assumes "next_input s (ws @ c # rest)" "\<forall>w\<in>set ws. is_whitespace w"
    "\<not> is_whitespace c" "c \<noteq> NUL" "c \<noteq> CHR ''/''"
  shows "\<exists>s2. readtok s = scan_literal (line s2) (col s2) s2 \<and> looking_at s2 c rest \<and>
    current_parsed s2 \<and> source s2 = source s \<and> last_value s2 = last_value s"
proof -
  have ne: "\<not> eof s" using assms(1) by (simp add: next_input_def)
  obtain x t where xt: "x # t = ws @ c # rest" by (cases ws) auto
  have xn: "x \<noteq> NUL" using xt assms(2,4) is_whitespace_not_NUL by (cases ws) auto
  have "\<exists>s1. skip_parsed s = Inr (None, s1) \<and> last_char s1 = x \<and> drop (it s1) (source s1) = t \<and>
    (is_whitespace x \<or> looking_at s1 x t) \<and> current_parsed s1 \<and> source s1 = source s \<and>
    last_value s1 = last_value s"
  proof (cases "current_parsed s")
    case True
    then have "drop (it s) (source s) = x # t" using assms(1) xt by (simp add: next_input_def)
    from readchar_Cons[OF ne this] obtain s1 where
      s1: "readchar s = Inr (x, s1)" "looking_at s1 x t" "source s1 = source s"
        "current_parsed s1 = current_parsed s" "last_value s1 = last_value s" by blast
    have "\<not> eof s1" using looking_at_not_eof[OF s1(2) xn] .
    then show ?thesis using True s1 by (auto simp: skip_parsed_def looking_at_def)
  next
    case False
    then have "x # t = last_char s # drop (it s) (source s)"
      and "is_whitespace (last_char s) \<or>
           (0 < it s \<and> it s \<le> length (source s) \<and> source s ! (it s - 1) = last_char s)"
      using assms(1) xt by (simp_all add: next_input_def)
    then show ?thesis using False by (auto simp: skip_parsed_def looking_at_def)
  qed
  then obtain s1 where s1: "skip_parsed s = Inr (None, s1)" "last_char s1 = x"
    "drop (it s1) (source s1) = t" "is_whitespace x \<or> looking_at s1 x t" "current_parsed s1"
    "source s1 = source s" "last_value s1 = last_value s" by blast
  from skip_whitespace_run[OF s1(2) xt assms(2,3,4) s1(3,4)] obtain s2 where
    s2: "skip_whitespace s1 = Some (Inr (None, s2))" "looking_at s2 c rest"
      "source s2 = source s1" "current_parsed s2 = current_parsed s1" "last_value s2 = last_value s1"
    by blast
  have "last_char s2 \<noteq> CHR ''/''" using s2(2) assms(5) by (simp add: looking_at_def)
  then have "readtok s = scan_literal (line s2) (col s2) s2"
    using ne s1(1) s2(1) by (subst readtok.simps) simp
  then show ?thesis using s1 s2 by auto
qed

subsection \<open>Runs of characters\<close>

lemma lookahead_update [simp]:
  "lookahead (s\<lparr>last_value := v\<rparr>) rest = lookahead s rest"
  "lookahead (s\<lparr>current_parsed := b\<rparr>) rest = lookahead s rest"
  "lookahead (s\<lparr>last_token := t\<rparr>) rest = lookahead s rest"
  by (simp_all add: lookahead_def)

lemma readchar_lookahead:
  assumes "\<not> eof s" "drop (it s) (source s) = rest"
  shows "\<exists>s1. readchar s = Inr (if rest = [] then NUL else hd rest, s1) \<and> lookahead s1 rest \<and>
    source s1 = source s \<and> current_parsed s1 = current_parsed s \<and> last_value s1 = last_value s"
proof (cases rest)
  case Nil
  then show ?thesis using readchar_Nil[OF assms(1)] assms(2) by (simp add: lookahead_def eof_def)
next
  case (Cons y t)
  from readchar_Cons[OF assms(1) assms(2)[unfolded Cons]] obtain s1 where
    s1: "readchar s = Inr (y, s1)" "looking_at s1 y t" "source s1 = source s"
      "current_parsed s1 = current_parsed s" "last_value s1 = last_value s" by blast
  then show ?thesis using Cons by (auto simp: lookahead_def looking_at_def eof_def)
qed

lemma is_identifier_not_NUL: "is_identifier c \<Longrightarrow> c \<noteq> NUL"
  by (auto simp: is_identifier_def is_alphanum_def is_alpha_def is_digit_def)

lemma is_numeral_not_NUL: "is_numeral c \<Longrightarrow> c \<noteq> NUL"
  by (auto simp: is_numeral_def is_digit_def)

lemma identifier_loop_run:
  assumes "last_char s = x" "x \<noteq> NUL" "drop (it s) (source s) = run @ rest"
    "\<forall>c\<in>set run. is_identifier c" "rest = [] \<or> \<not> is_identifier (hd rest)"
  shows "\<exists>s'. identifier_loop s = Some (Inr ((), s')) \<and> last_value s' = last_value s @ x # run \<and>
    lookahead s' rest \<and> source s' = source s \<and> current_parsed s' = current_parsed s"
  using assms
proof (induction run arbitrary: s x)
  case Nil
  let ?s0 = "s\<lparr>last_value := last_value s @ [last_char s]\<rparr>"
  have "\<not> eof ?s0" "drop (it ?s0) (source ?s0) = rest" using Nil by (simp_all add: eof_def)
  from readchar_lookahead[OF this] obtain s1 where
    s1: "readchar ?s0 = Inr (if rest = [] then NUL else hd rest, s1)" "lookahead s1 rest"
      "source s1 = source ?s0" "current_parsed s1 = current_parsed ?s0" "last_value s1 = last_value ?s0"
    by blast
  have "\<not> is_identifier (if rest = [] then NUL else hd rest)"
    using Nil.prems(5) is_identifier_not_NUL by auto
  then show ?case using s1 Nil.prems(1) by (subst identifier_loop.simps) simp
next
  case (Cons y ys)
  let ?s0 = "s\<lparr>last_value := last_value s @ [last_char s]\<rparr>"
  have "\<not> eof ?s0" "drop (it ?s0) (source ?s0) = y # (ys @ rest)" using Cons.prems by (simp_all add: eof_def)
  from readchar_Cons[OF this] obtain s1 where
    s1: "readchar ?s0 = Inr (y, s1)" "looking_at s1 y (ys @ rest)" "source s1 = source ?s0"
      "current_parsed s1 = current_parsed ?s0" "last_value s1 = last_value ?s0" by blast
  have y: "is_identifier y" using Cons.prems(4) by simp
  have "\<exists>s'. identifier_loop s1 = Some (Inr ((), s')) \<and> last_value s' = last_value s1 @ y # ys \<and>
    lookahead s' rest \<and> source s' = source s1 \<and> current_parsed s' = current_parsed s1"
  proof (rule Cons.IH)
    show "last_char s1 = y" "drop (it s1) (source s1) = ys @ rest"
      using s1(2) by (simp_all add: looking_at_def)
    show "y \<noteq> NUL" using y by (rule is_identifier_not_NUL)
    show "\<forall>c\<in>set ys. is_identifier c" using Cons.prems(4) by simp
    show "rest = [] \<or> \<not> is_identifier (hd rest)" by (rule Cons.prems(5))
  qed
  then obtain s' where s': "identifier_loop s1 = Some (Inr ((), s'))"
    "last_value s' = last_value s1 @ y # ys" "lookahead s' rest" "source s' = source s1"
    "current_parsed s' = current_parsed s1" by blast
  show ?case using s1 y s' Cons.prems(1) by (subst identifier_loop.simps) simp
qed

lemma numeral_loop_run:
  assumes "last_char s = x" "x \<noteq> NUL" "drop (it s) (source s) = run @ rest"
    "\<forall>c\<in>set run. is_numeral c" "rest = [] \<or> \<not> is_numeral (hd rest)"
  shows "\<exists>s'. numeral_loop s = Some (Inr ((), s')) \<and> last_value s' = last_value s @ x # run \<and>
    lookahead s' rest \<and> source s' = source s \<and> current_parsed s' = current_parsed s"
  using assms
proof (induction run arbitrary: s x)
  case Nil
  let ?s0 = "s\<lparr>last_value := last_value s @ [last_char s]\<rparr>"
  have "\<not> eof ?s0" "drop (it ?s0) (source ?s0) = rest" using Nil by (simp_all add: eof_def)
  from readchar_lookahead[OF this] obtain s1 where
    s1: "readchar ?s0 = Inr (if rest = [] then NUL else hd rest, s1)" "lookahead s1 rest"
      "source s1 = source ?s0" "current_parsed s1 = current_parsed ?s0" "last_value s1 = last_value ?s0"
    by blast
  have "\<not> is_numeral (if rest = [] then NUL else hd rest)"
    using Nil.prems(5) is_numeral_not_NUL by auto
  then show ?case using s1 Nil.prems(1) by (subst numeral_loop.simps) simp
next
  case (Cons y ys)
  let ?s0 = "s\<lparr>last_value := last_value s @ [last_char s]\<rparr>"
  have "\<not> eof ?s0" "drop (it ?s0) (source ?s0) = y # (ys @ rest)" using Cons.prems by (simp_all add: eof_def)
  from readchar_Cons[OF this] obtain s1 where
    s1: "readchar ?s0 = Inr (y, s1)" "looking_at s1 y (ys @ rest)" "source s1 = source ?s0"
      "current_parsed s1 = current_parsed ?s0" "last_value s1 = last_value ?s0" by blast
  have y: "is_numeral y" using Cons.prems(4) by simp
  have "\<exists>s'. numeral_loop s1 = Some (Inr ((), s')) \<and> last_value s' = last_value s1 @ y # ys \<and>
    lookahead s' rest \<and> source s' = source s1 \<and> current_parsed s' = current_parsed s1"
  proof (rule Cons.IH)
    show "last_char s1 = y" "drop (it s1) (source s1) = ys @ rest"
      using s1(2) by (simp_all add: looking_at_def)
    show "y \<noteq> NUL" using y by (rule is_numeral_not_NUL)
    show "\<forall>c\<in>set ys. is_numeral c" using Cons.prems(4) by simp
    show "rest = [] \<or> \<not> is_numeral (hd rest)" by (rule Cons.prems(5))
  qed
  then obtain s' where s': "numeral_loop s1 = Some (Inr ((), s'))"
    "last_value s' = last_value s1 @ y # ys" "lookahead s' rest" "source s' = source s1"
    "current_parsed s' = current_parsed s1" by blast
  show ?case using s1 y s' Cons.prems(1) by (subst numeral_loop.simps) simp
qed

lemma readchars_run:
  assumes "\<not> eof s" "drop (it s) (source s) = xs @ rest" "NUL \<notin> set xs"
  shows "\<exists>s'. readchars (length xs) s = Inr ((), s') \<and> \<not> eof s' \<and>
    drop (it s') (source s') = rest \<and> source s' = source s \<and>
    current_parsed s' = current_parsed s \<and> last_value s' = last_value s"
  using assms
proof (induction xs arbitrary: s)
  case Nil
  then show ?case by simp
next
  case (Cons y ys)
  have "drop (it s) (source s) = y # (ys @ rest)" using Cons.prems(2) by simp
  from readchar_Cons[OF Cons.prems(1) this] obtain s1 where
    s1: "readchar s = Inr (y, s1)" "looking_at s1 y (ys @ rest)" "source s1 = source s"
      "current_parsed s1 = current_parsed s" "last_value s1 = last_value s" by blast
  have "\<not> eof s1" using looking_at_not_eof[OF s1(2)] Cons.prems(3) by auto
  moreover have "drop (it s1) (source s1) = ys @ rest" using s1(2) by (simp add: looking_at_def)
  moreover have "NUL \<notin> set ys" using Cons.prems(3) by simp
  ultimately obtain s' where "readchars (length ys) s1 = Inr ((), s')" "\<not> eof s'"
    "drop (it s') (source s') = rest" "source s' = source s1"
    "current_parsed s' = current_parsed s1" "last_value s' = last_value s1"
    using Cons.IH[of s1] by blast
  then show ?case using s1 by simp
qed

lemma looking_at_peekstr:
  "looking_at s c rest \<Longrightarrow> peekstr s = Inr (take 4 (c # rest))"
proof -
  assume a: "looking_at s c rest"
  then have "it s - 1 < length (source s)" by (auto simp: looking_at_def)
  from Cons_nth_drop_Suc[OF this] a have "drop (it s - 1) (source s) = c # rest"
    by (simp add: looking_at_def)
  then show ?thesis using a by (auto simp: peekstr_def looking_at_def)
qed

lemma lookahead_next_input:
  assumes "lookahead s rest" "\<not> current_parsed s"
  shows "if rest = [] \<or> hd rest = NUL then eof s else next_input s rest"
proof (cases "rest = [] \<or> hd rest = NUL")
  case True
  then show ?thesis using assms by (simp add: lookahead_def)
next
  case False
  then have "looking_at s (hd rest) (tl rest)" "rest = hd rest # tl rest"
    using assms by (simp_all add: lookahead_def)
  then show ?thesis using False assms(2)
    by (auto simp: next_input_def looking_at_def eof_def)
qed

subsection \<open>The table, numerals and identifiers\<close>

lemma basic_matches_wf:
  "m \<in> set basic_matches \<Longrightarrow> fst m \<noteq> [] \<and> NUL \<notin> set (fst m)"
  by (auto simp: basic_matches_def)

lemma scan_token_match:
  assumes "looking_at s c rest" "c \<noteq> NUL" "first_match basic_matches (take 4 (c # rest)) = Some m"
  shows "\<exists>s'. scan_token tln tcl s = Some (Inr (Token (snd m) tln tcl, s')) \<and> \<not> eof s' \<and>
    drop (it s') (source s') = drop (length (fst m)) (c # rest) \<and>
    current_parsed s' = current_parsed s \<and> source s' = source s"
proof -
  let ?n = "length (fst m)"
  from first_match_Some[OF assms(3)] have m: "m \<in> set basic_matches"
    and tk: "take ?n (take 4 (c # rest)) = fst m" by simp_all
  from basic_matches_wf[OF m] have ne: "fst m \<noteq> []" and nz: "NUL \<notin> set (fst m)" by simp_all
  have "?n \<le> 4" using take_eq_length[OF tk] by simp
  then have tk': "take ?n (c # rest) = fst m" using tk by (simp only: take_take min_absorb1)
  obtain p where p: "fst m = c # p" using tk' ne by (cases "fst m") (auto simp: take_Cons')
  have split: "c # rest = fst m @ drop ?n (c # rest)"
    using append_take_drop_id[of ?n "c # rest"] tk' by simp
  then have rest: "rest = p @ drop ?n (c # rest)" using p by simp
  have "\<not> eof s" using looking_at_not_eof[OF assms(1,2)] .
  moreover have "drop (it s) (source s) = p @ drop ?n (c # rest)"
    using assms(1) rest by (simp add: looking_at_def)
  moreover have "NUL \<notin> set p" using nz p by simp
  ultimately obtain s' where s': "readchars (length p) s = Inr ((), s')" "\<not> eof s'"
    "drop (it s') (source s') = drop ?n (c # rest)" "source s' = source s"
    "current_parsed s' = current_parsed s" "last_value s' = last_value s"
    using readchars_run[of s p "drop ?n (c # rest)"] by blast
  have "length (fst m) - 1 = length p" using p by simp
  then show ?thesis using looking_at_peekstr[OF assms(1)] assms(3) s'
    by (simp add: scan_token_def return_token_def)
qed

lemma scan_token_numeral:
  assumes "looking_at s c (run @ rest)" "is_numeral c" "\<forall>x\<in>set run. is_numeral x"
    "rest = [] \<or> \<not> is_numeral (hd rest)"
    "first_match basic_matches (take 4 (c # run @ rest)) = None"
  shows "\<exists>s'. scan_token tln tcl s = Some (Inr (Token RealLiteral tln tcl, s')) \<and>
    last_value s' = c # run \<and> lookahead s' rest \<and> \<not> current_parsed s'"
proof -
  let ?s0 = "s\<lparr>last_value := []\<rparr>"
  have "last_char ?s0 = c" "drop (it ?s0) (source ?s0) = run @ rest"
    using assms(1) by (simp_all add: looking_at_def)
  from numeral_loop_run[OF this(1) is_numeral_not_NUL[OF assms(2)] this(2) assms(3,4)]
  obtain s' where s': "numeral_loop ?s0 = Some (Inr ((), s'))" "last_value s' = c # run"
    "lookahead s' rest" by auto
  have "last_char s = c" using assms(1) by (simp add: looking_at_def)
  then show ?thesis using looking_at_peekstr[OF assms(1)] assms(2,5) s'
    by (simp add: scan_token_def return_token_def)
qed

lemma scan_token_identifier:
  assumes "looking_at s c (run @ rest)" "is_identifier_begin c" "\<forall>x\<in>set run. is_identifier x"
    "rest = [] \<or> \<not> is_identifier (hd rest)"
    "first_match basic_matches (take 4 (c # run @ rest)) = None"
  shows "\<exists>s'. scan_token tln tcl s = Some (Inr (Token Identifier tln tcl, s')) \<and>
    last_value s' = c # run \<and> lookahead s' rest \<and> \<not> current_parsed s'"
proof -
  let ?s0 = "s\<lparr>last_value := []\<rparr>"
  have cn: "c \<noteq> NUL" "\<not> is_numeral c"
    using assms(2) order_trans[of "CHR ''a''" c "CHR ''9''"] order_trans[of "CHR ''A''" c "CHR ''9''"]
    by (auto simp: is_identifier_begin_def is_alpha_def is_numeral_def is_digit_def)
  have "last_char ?s0 = c" "drop (it ?s0) (source ?s0) = run @ rest"
    using assms(1) by (simp_all add: looking_at_def)
  from identifier_loop_run[OF this(1) cn(1) this(2) assms(3,4)]
  obtain s' where s': "identifier_loop ?s0 = Some (Inr ((), s'))" "last_value s' = c # run"
    "lookahead s' rest" by auto
  have "last_char s = c" using assms(1) by (simp add: looking_at_def)
  then show ?thesis using looking_at_peekstr[OF assms(1)] assms(2,5) cn(2) s'
    by (simp add: scan_token_def return_token_def)
qed

lemma numeral_char:
  "is_numeral c \<Longrightarrow> \<not> is_whitespace c \<and> c \<noteq> NUL \<and> c \<noteq> CHR ''/'' \<and> c \<noteq> DQUOTE \<and>
     c \<noteq> SQUOTE \<and> c \<noteq> CHR ''$''"
  by (auto simp: is_numeral_def is_digit_def is_whitespace_def)

lemma identifier_begin_char:
  "is_identifier_begin c \<Longrightarrow> \<not> is_whitespace c \<and> c \<noteq> NUL \<and> c \<noteq> CHR ''/'' \<and> c \<noteq> DQUOTE \<and>
     c \<noteq> SQUOTE \<and> c \<noteq> CHR ''$''"
  by (auto simp: is_identifier_begin_def is_alpha_def is_whitespace_def)

lemma scan_literal_token:
  "looking_at s c rest \<Longrightarrow> c \<noteq> DQUOTE \<Longrightarrow> c \<noteq> SQUOTE \<Longrightarrow> c \<noteq> CHR ''$'' \<Longrightarrow>
     scan_literal tln tcl s = scan_token tln tcl s"
  by (simp add: scan_literal_def looking_at_def)

text \<open>
  Claim C9. The next lexeme is a run of numeral characters (digits and dots) that ends at
  the end of the buffer or in front of a character that is no numeral character, blanks
  may precede it, and no pattern of the table matches the window at its start. Then
  \<^verbatim>\<open>readtok\<close> returns one \<open>RealLiteral\<close> token, and the value is the whole run as it stands:
  nothing checks how many dots it has. The run is consumed: what follows it is what the
  next call looks at, or the end of input has been observed.
\<close>

theorem numeral_run_is_RealLiteral:
  assumes "next_input s (ws @ run @ rest)" and "\<forall>w\<in>set ws. is_whitespace w"
    and "run \<noteq> []" and "\<forall>c\<in>set run. is_numeral c" and "rest = [] \<or> \<not> is_numeral (hd rest)"
    and "first_match basic_matches (take 4 (run @ rest)) = None"
  shows "\<exists>t s'. readtok s = Some (Inr (t, s')) \<and> tok_type t = RealLiteral \<and> last_value s' = run \<and>
    (if rest = [] \<or> hd rest = NUL then eof s' else next_input s' rest)"
proof -
  obtain c run' where run: "run = c # run'" using assms(3) by (cases run) auto
  have c: "is_numeral c" and run': "\<forall>x\<in>set run'. is_numeral x" using assms(4) run by simp_all
  note ch = numeral_char[OF c]
  have "next_input s (ws @ c # (run' @ rest))" using assms(1) run by simp
  from readtok_reaches[OF this assms(2)] ch obtain s2 where
    s2: "readtok s = scan_literal (line s2) (col s2) s2" "looking_at s2 c (run' @ rest)" by blast
  have "first_match basic_matches (take 4 (c # run' @ rest)) = None" using assms(6) run by simp
  from scan_token_numeral[OF s2(2) c run' assms(5) this, of "line s2" "col s2"]
  obtain s' where s': "scan_token (line s2) (col s2) s2 = Some (Inr (Token RealLiteral (line s2) (col s2), s'))"
    "last_value s' = c # run'" "lookahead s' rest" "\<not> current_parsed s'" by blast
  have "readtok s = Some (Inr (Token RealLiteral (line s2) (col s2), s'))"
    using s2(1) scan_literal_token[OF s2(2)] ch s'(1) by simp
  then show ?thesis using s'(2) run lookahead_next_input[OF s'(3,4)] by simp
qed

theorem numeral_run_is_RealLiteral_witness:
  "next_input (new_Lexer ''1.2.3'') ([] @ ''1.2.3'' @ []) \<and>
   first_match basic_matches (take 4 (''1.2.3'' @ [])) = None \<and>
   (\<exists>t s'. readtok (new_Lexer ''1.2.3'') = Some (Inr (t, s')) \<and> tok_type t = RealLiteral \<and>
      last_value s' = ''1.2.3'' \<and> eof s')"
proof -
  have a: "next_input (new_Lexer ''1.2.3'') ([] @ ''1.2.3'' @ [])"
    by (simp add: next_input_def new_Lexer_def eof_def)
  have b: "first_match basic_matches (take 4 (''1.2.3'' @ [])) = None"
    by (simp add: basic_matches_def)
  have c: "\<forall>c\<in>set ''1.2.3''. is_numeral c"
    by (simp add: is_numeral_def is_digit_def)
  from numeral_run_is_RealLiteral[OF a _ _ c _ b] show ?thesis using a b by simp
qed

lemma identifier_run:
  assumes "next_input s (ws @ run @ rest)" and "\<forall>w\<in>set ws. is_whitespace w"
    and "run \<noteq> []" and "is_identifier_begin (hd run)" and "\<forall>c\<in>set run. is_identifier c"
    and "rest = [] \<or> \<not> is_identifier (hd rest)"
  shows "\<exists>t s'. readtok s = Some (Inr (t, s')) \<and>
    (case first_match basic_matches (take 4 (run @ rest)) of
       None \<Rightarrow> tok_type t = Identifier \<and> last_value s' = run \<and>
         (if rest = [] \<or> hd rest = NUL then eof s' else next_input s' rest)
     | Some m \<Rightarrow> tok_type t = snd m \<and> next_input s' (drop (length (fst m)) (run @ rest)))"
proof -
  obtain c run' where run: "run = c # run'" using assms(3) by (cases run) auto
  have c: "is_identifier_begin c" and run': "\<forall>x\<in>set run'. is_identifier x"
    using assms(4,5) run by simp_all
  note ch = identifier_begin_char[OF c]
  have "next_input s (ws @ c # (run' @ rest))" using assms(1) run by simp
  from readtok_reaches[OF this assms(2)] ch obtain s2 where
    s2: "readtok s = scan_literal (line s2) (col s2) s2" "looking_at s2 c (run' @ rest)"
      "current_parsed s2" by blast
  have rt: "readtok s = scan_token (line s2) (col s2) s2"
    using s2(1) scan_literal_token[OF s2(2)] ch by simp
  show ?thesis
  proof (cases "first_match basic_matches (take 4 (run @ rest))")
    case None
    then have "first_match basic_matches (take 4 (c # run' @ rest)) = None" using run by simp
    from scan_token_identifier[OF s2(2) c run' assms(6) this, of "line s2" "col s2"]
    obtain s' where s': "scan_token (line s2) (col s2) s2 = Some (Inr (Token Identifier (line s2) (col s2), s'))"
      "last_value s' = c # run'" "lookahead s' rest" "\<not> current_parsed s'" by blast
    show ?thesis using rt s'(1,2) run None lookahead_next_input[OF s'(3,4)] by simp
  next
    case (Some m)
    then have "first_match basic_matches (take 4 (c # (run' @ rest))) = Some m" using run by simp
    from scan_token_match[OF s2(2) _ this, of "line s2" "col s2"] ch
    obtain s' where s': "scan_token (line s2) (col s2) s2 = Some (Inr (Token (snd m) (line s2) (col s2), s'))"
      "\<not> eof s'" "drop (it s') (source s') = drop (length (fst m)) (c # (run' @ rest))"
      "current_parsed s' = current_parsed s2" by blast
    have "next_input s' (drop (length (fst m)) (run @ rest))"
      using s'(2,3,4) s2(3) run by (simp add: next_input_def)
    then show ?thesis using rt s'(1) Some by simp
  qed
qed

lemma identifier_begin_match:
  assumes "is_identifier_begin c" "first_match basic_matches (take 4 (c # xs)) = Some m"
  shows "snd m \<in> {EuclDivide, EuclModulo, If', Else, For, Do, With, LocalVar}"
proof -
  from first_match_Some[OF assms(2)] have m: "m \<in> set basic_matches"
    and tk: "take (length (fst m)) (take 4 (c # xs)) = fst m" by simp_all
  from basic_matches_wf[OF m] have "fst m \<noteq> []" by simp
  then have "hd (fst m) = c" using tk by (cases "fst m") (auto simp: take_Cons')
  moreover have "length (fst m) \<le> 4" using take_eq_length[OF tk] by simp
  ultimately show ?thesis using m assms(1)
    by (auto simp: basic_matches_def is_identifier_begin_def is_alpha_def)
qed

text \<open>
  Claim C2, as amended. The next lexeme is a run of identifier characters that begins with
  a letter or an underscore and ends at the end of the buffer or in front of a character
  that is no identifier character. If no pattern of the table is a prefix of the window of
  four characters at its start, \<^verbatim>\<open>readtok\<close> returns one \<open>Identifier\<close> token whose value is
  the whole run. If one is (it is then one of the texts \<^verbatim>\<open>div\<close>, \<^verbatim>\<open>mod\<close>, \<^verbatim>\<open>if\<close>, \<^verbatim>\<open>else\<close>,
  \<^verbatim>\<open>for\<close>, \<^verbatim>\<open>do\<close>, \<^verbatim>\<open>with\<close>, \<^verbatim>\<open>var\<close>), \<^verbatim>\<open>readtok\<close> returns the token of that pattern and
  consumes the pattern only: the table is tried before the identifiers, and nothing looks
  at the character after the pattern.
\<close>

theorem identifier_or_keyword:
  assumes "next_input s (ws @ run @ rest)" and "\<forall>w\<in>set ws. is_whitespace w"
    and "run \<noteq> []" and "is_identifier_begin (hd run)" and "\<forall>c\<in>set run. is_identifier c"
    and "rest = [] \<or> \<not> is_identifier (hd rest)"
  shows "\<exists>t s'. readtok s = Some (Inr (t, s')) \<and>
    (case first_match basic_matches (take 4 (run @ rest)) of
       None \<Rightarrow> tok_type t = Identifier \<and> last_value s' = run
     | Some m \<Rightarrow> tok_type t = snd m \<and>
         snd m \<in> {EuclDivide, EuclModulo, If', Else, For, Do, With, LocalVar} \<and>
         next_input s' (drop (length (fst m)) (run @ rest)))"
proof -
  from identifier_run[OF assms] obtain t s' where r: "readtok s = Some (Inr (t, s'))"
    "case first_match basic_matches (take 4 (run @ rest)) of
       None \<Rightarrow> tok_type t = Identifier \<and> last_value s' = run \<and>
         (if rest = [] \<or> hd rest = NUL then eof s' else next_input s' rest)
     | Some m \<Rightarrow> tok_type t = snd m \<and> next_input s' (drop (length (fst m)) (run @ rest))"
    by blast
  obtain c run' where run: "run = c # run'" using assms(3) by (cases run) auto
  have "snd m \<in> {EuclDivide, EuclModulo, If', Else, For, Do, With, LocalVar}"
    if "first_match basic_matches (take 4 (run @ rest)) = Some m" for m
    using identifier_begin_match[of c "run' @ rest" m] assms(4) that run by simp
  then show ?thesis using r by (auto split: option.splits)
qed

theorem identifier_or_keyword_witness:
  "next_input (new_Lexer ''ifx'') ([] @ ''ifx'' @ []) \<and>
   (\<exists>t s'. readtok (new_Lexer ''ifx'') = Some (Inr (t, s')) \<and> tok_type t = If' \<and> next_input s' ''x'') \<and>
   next_input (new_Lexer ''whilex+'') ([] @ ''whilex'' @ ''+'') \<and>
   (\<exists>t s'. readtok (new_Lexer ''whilex+'') = Some (Inr (t, s')) \<and> tok_type t = Identifier \<and>
      last_value s' = ''whilex'')"
proof -
  have a: "next_input (new_Lexer ''ifx'') ([] @ ''ifx'' @ [])"
    and b: "next_input (new_Lexer ''whilex+'') ([] @ ''whilex'' @ ''+'')"
    by (simp_all add: next_input_def new_Lexer_def eof_def)
  have ida: "\<forall>c\<in>set ''ifx''. is_identifier c" "is_identifier_begin (hd ''ifx'')"
    and idb: "\<forall>c\<in>set ''whilex''. is_identifier c" "is_identifier_begin (hd ''whilex'')"
      "\<not> is_identifier (hd ''+'')"
    by (simp_all add: is_identifier_def is_identifier_begin_def is_alphanum_def is_alpha_def is_digit_def)
  have fa: "first_match basic_matches (take 4 (''ifx'' @ [])) = Some (''if'', If')"
    and fb: "first_match basic_matches (take 4 (''whilex'' @ ''+'')) = None"
    by (simp_all add: basic_matches_def)
  from identifier_or_keyword[OF a _ _ ida(2,1)] fa
  have "\<exists>t s'. readtok (new_Lexer ''ifx'') = Some (Inr (t, s')) \<and> tok_type t = If' \<and> next_input s' ''x''"
    by simp
  moreover from identifier_or_keyword[OF b _ _ idb(2,1)] idb(3) fb
  have "\<exists>t s'. readtok (new_Lexer ''whilex+'') = Some (Inr (t, s')) \<and> tok_type t = Identifier \<and>
      last_value s' = ''whilex''"
    by simp
  ultimately show ?thesis using a b by blast
qed

text \<open>
  The claim as the specification states it fails on the buffer \<^verbatim>\<open>ifx\<close>: the first token is
  the keyword \<open>If'\<close>, not an identifier.
\<close>

theorem ifx_counterexample:
  "outcome (readtok (new_Lexer ''ifx'')) = Some (Inr (Token If' 1 1))"
  by code_simp

text \<open>
  Claim C4. The window that is matched against the table has at most four characters, so
  the patterns \<^verbatim>\<open>while\<close>, \<^verbatim>\<open>repeat\<close> and \<^verbatim>\<open>else if\<close> never match: from no state does
  \<^verbatim>\<open>readtok\<close> return a token of kind \<open>While\<close>, \<open>Repeat\<close> or \<open>ElseIf\<close>. The lexemes
  \<^verbatim>\<open>while\<close> and \<^verbatim>\<open>repeat\<close>, standing alone (blanks may precede them; the end of the buffer
  or a character that is no identifier character follows), are returned as \<open>Identifier\<close>
  tokens with these texts as values.
\<close>

theorem long_keywords_never_match:
  "(\<forall>t s'. readtok s = Some (Inr (t, s')) \<longrightarrow>
      tok_type t \<noteq> While \<and> tok_type t \<noteq> Repeat \<and> tok_type t \<noteq> ElseIf) \<and>
   (\<forall>kw\<in>{''while'', ''repeat''}.
      next_input s (ws @ kw @ rest) \<and> (\<forall>w\<in>set ws. is_whitespace w) \<and>
      (rest = [] \<or> \<not> is_identifier (hd rest)) \<longrightarrow>
      (\<exists>t s'. readtok s = Some (Inr (t, s')) \<and> tok_type t = Identifier \<and> last_value s' = kw))"
proof -
  have never: "\<forall>t s'. readtok s = Some (Inr (t, s')) \<longrightarrow>
      tok_type t \<noteq> While \<and> tok_type t \<noteq> Repeat \<and> tok_type t \<noteq> ElseIf"
    using readtok_returns[of s] by (auto simp: no_long_keyword_def)
  have ident: "\<exists>t s'. readtok s = Some (Inr (t, s')) \<and> tok_type t = Identifier \<and> last_value s' = kw"
    if kw: "kw = ''while'' \<or> kw = ''repeat''" and ni: "next_input s (ws @ kw @ rest)"
      and ws: "\<forall>w\<in>set ws. is_whitespace w" and rest: "rest = [] \<or> \<not> is_identifier (hd rest)" for kw
  proof -
    have 1: "kw \<noteq> []" "is_identifier_begin (hd kw)" "\<forall>c\<in>set kw. is_identifier c"
      using kw by (auto simp: is_identifier_def is_identifier_begin_def is_alphanum_def is_alpha_def)
    have 2: "first_match basic_matches (take 4 (kw @ rest)) = None"
      using kw by (auto simp: basic_matches_def)
    from identifier_run[OF ni ws 1 rest] 2 show ?thesis by auto
  qed
  show ?thesis using never ident by blast
qed

theorem long_keywords_never_match_witness:
  "readtok (new_Lexer ''while'') = Some (Inr (Token Identifier 1 1,
      \<lparr>source = ''while'', it = 5, last_char = NUL, line = 1, col = 5, current_parsed = False,
       last_value = ''while'', last_token = Token Identifier 1 1\<rparr>)) \<and>
   tok_type (Token Identifier 1 1) \<noteq> While \<and>
   next_input (new_Lexer ''repeat'') ([] @ ''repeat'' @ []) \<and>
   (\<exists>t s'. readtok (new_Lexer ''repeat'') = Some (Inr (t, s')) \<and> tok_type t = Identifier \<and>
      last_value s' = ''repeat'')"
proof -
  have a: "readtok (new_Lexer ''while'') = Some (Inr (Token Identifier 1 1,
      \<lparr>source = ''while'', it = 5, last_char = NUL, line = 1, col = 5, current_parsed = False,
       last_value = ''while'', last_token = Token Identifier 1 1\<rparr>))"
    by code_simp
  have b: "next_input (new_Lexer ''repeat'') ([] @ ''repeat'' @ [])"
    by (simp add: next_input_def new_Lexer_def eof_def)
  from long_keywords_never_match[of "new_Lexer ''while''" "[]" "[]"] a
  have "tok_type (Token Identifier 1 1) \<noteq> While" by blast
  moreover from long_keywords_never_match[of "new_Lexer ''repeat''" "[]" "[]"] b
  have "\<exists>t s'. readtok (new_Lexer ''repeat'') = Some (Inr (t, s')) \<and> tok_type t = Identifier \<and>
      last_value s' = ''repeat''"
    by simp
  ultimately show ?thesis using a b by blast
qed

subsection \<open>String literals\<close>

lemma string_literal_close:
  assumes "\<not> eof s" "drop (it s) (source s) = d # rest" "d \<noteq> NUL"
  shows "\<exists>s'. string_literal d tln tcl s = Some (Inr (Token StringLiteral tln tcl, s')) \<and>
    last_value s' = last_value s \<and> \<not> eof s' \<and> drop (it s') (source s') = rest \<and>
    current_parsed s' = current_parsed s"
proof -
  from readchar_Cons[OF assms(1,2)] obtain s1 where
    s1: "readchar s = Inr (d, s1)" "looking_at s1 d rest" "source s1 = source s"
      "current_parsed s1 = current_parsed s" "last_value s1 = last_value s" by blast
  have "\<not> eof s1" using looking_at_not_eof[OF s1(2) assms(3)] .
  then show ?thesis using s1
    by (subst string_literal.simps) (simp add: return_token_def looking_at_def)
qed

lemma string_literal_plain:
  assumes "\<not> eof s" "drop (it s) (source s) = c # t" "c \<noteq> d" "c \<noteq> NUL" "c \<noteq> BACKSLASH"
  shows "\<exists>s1. string_literal d tln tcl s = string_literal d tln tcl s1 \<and>
    last_value s1 = last_value s @ [if c = CHR ''#'' then LF else c] \<and> \<not> eof s1 \<and>
    drop (it s1) (source s1) = t \<and> current_parsed s1 = current_parsed s"
proof -
  from readchar_Cons[OF assms(1,2)] obtain s1 where
    s1: "readchar s = Inr (c, s1)" "looking_at s1 c t" "source s1 = source s"
      "current_parsed s1 = current_parsed s" "last_value s1 = last_value s" by blast
  have ne: "\<not> eof s1" using looking_at_not_eof[OF s1(2) assms(4)] .
  have lc: "last_char s1 = c" "drop (it s1) (source s1) = t" using s1(2) by (simp_all add: looking_at_def)
  let ?s = "s1\<lparr>last_value := last_value s1 @ [if c = CHR ''#'' then LF else c]\<rparr>"
  have "string_literal d tln tcl s = string_literal d tln tcl ?s"
    using s1(1) lc(1) assms(3,5) by (subst string_literal.simps) simp
  moreover have "last_value ?s = last_value s @ [if c = CHR ''#'' then LF else c]" "\<not> eof ?s"
    "drop (it ?s) (source ?s) = t" "current_parsed ?s = current_parsed s"
    using s1 ne lc by simp_all
  ultimately show ?thesis by blast
qed

lemma string_literal_escape:
  assumes "\<not> eof s" "drop (it s) (source s) = BACKSLASH # e # t" "d \<noteq> BACKSLASH" "e \<noteq> NUL"
  shows "\<exists>s2. string_literal d tln tcl s = string_literal d tln tcl s2 \<and>
    last_value s2 = last_value s @
      (if e = d then [d] else if e = CHR ''n'' then [LF] else if e = CHR ''#'' then ''#''
       else [BACKSLASH, e]) \<and>
    \<not> eof s2 \<and> drop (it s2) (source s2) = t \<and> current_parsed s2 = current_parsed s"
proof -
  from readchar_Cons[OF assms(1,2)] obtain s1 where
    s1: "readchar s = Inr (BACKSLASH, s1)" "looking_at s1 BACKSLASH (e # t)" "source s1 = source s"
      "current_parsed s1 = current_parsed s" "last_value s1 = last_value s" by blast
  have ne1: "\<not> eof s1" using looking_at_not_eof[OF s1(2)] by simp
  have lc1: "last_char s1 = BACKSLASH" "drop (it s1) (source s1) = e # t"
    using s1(2) by (simp_all add: looking_at_def)
  from readchar_Cons[OF ne1 lc1(2)] obtain s2 where
    s2: "readchar s1 = Inr (e, s2)" "looking_at s2 e t" "source s2 = source s1"
      "current_parsed s2 = current_parsed s1" "last_value s2 = last_value s1" by blast
  have ne2: "\<not> eof s2" using looking_at_not_eof[OF s2(2) assms(4)] .
  have lc2: "last_char s2 = e" "drop (it s2) (source s2) = t" using s2(2) by (simp_all add: looking_at_def)
  let ?v = "if e = d then [d] else if e = CHR ''n'' then [LF] else if e = CHR ''#'' then ''#''
       else [BACKSLASH, e]"
  let ?s = "s2\<lparr>last_value := last_value s2 @ ?v\<rparr>"
  have "string_literal d tln tcl s = string_literal d tln tcl ?s"
    using s1(1) lc1(1) s2(1) ne2 lc2(1) assms(3) by (subst string_literal.simps) simp
  moreover have "last_value ?s = last_value s @ ?v" "\<not> eof ?s"
    "drop (it ?s) (source ?s) = t" "current_parsed ?s = current_parsed s"
    using s1 s2 ne2 lc2 by simp_all
  ultimately show ?thesis by blast
qed

lemma string_literal_run:
  assumes "\<not> eof s" "drop (it s) (source s) = body @ d # rest" "terminated_body d body"
    "d \<noteq> NUL" "d \<noteq> BACKSLASH"
  shows "\<exists>s'. string_literal d tln tcl s = Some (Inr (Token StringLiteral tln tcl, s')) \<and>
    last_value s' = last_value s @ spec_decode d body \<and> \<not> eof s' \<and>
    drop (it s') (source s') = rest \<and> current_parsed s' = current_parsed s"
  using assms
proof (induction d body arbitrary: s rule: spec_decode.induct)
  case (1 d)
  then show ?case using string_literal_close[of s d rest tln tcl] by simp
next
  case (2 d c)
  then have c: "c \<noteq> d" "c \<noteq> NUL" "c \<noteq> BACKSLASH" by simp_all
  have "drop (it s) (source s) = c # (d # rest)" using 2 by simp
  from string_literal_plain[OF "2.prems"(1) this c, of tln tcl] obtain s1 where
    s1: "string_literal d tln tcl s = string_literal d tln tcl s1"
      "last_value s1 = last_value s @ [if c = CHR ''#'' then LF else c]" "\<not> eof s1"
      "drop (it s1) (source s1) = d # rest" "current_parsed s1 = current_parsed s" by blast
  from string_literal_close[OF s1(3,4) "2.prems"(4), of tln tcl] s1 show ?case by auto
next
  case (3 d c e cs)
  show ?case
  proof (cases "c = BACKSLASH")
    case True
    then have e: "e \<noteq> NUL" and b: "terminated_body d cs" using "3.prems"(3) by simp_all
    have "drop (it s) (source s) = BACKSLASH # e # (cs @ d # rest)" using "3.prems"(2) True by simp
    from string_literal_escape[OF "3.prems"(1) this "3.prems"(5) e, of tln tcl] obtain s2 where
      s2: "string_literal d tln tcl s = string_literal d tln tcl s2"
        "last_value s2 = last_value s @
          (if e = d then [d] else if e = CHR ''n'' then [LF] else if e = CHR ''#'' then ''#''
           else [BACKSLASH, e])"
        "\<not> eof s2" "drop (it s2) (source s2) = cs @ d # rest"
        "current_parsed s2 = current_parsed s" by blast
    from "3.IH"(1)[OF True s2(3,4) b "3.prems"(4,5)] s2 True show ?thesis by auto
  next
    case False
    then have c: "c \<noteq> d" "c \<noteq> NUL" and b: "terminated_body d (e # cs)" using "3.prems"(3) by simp_all
    have "drop (it s) (source s) = c # ((e # cs) @ d # rest)" using "3.prems"(2) by simp
    from string_literal_plain[OF "3.prems"(1) this c False, of tln tcl] obtain s1 where
      s1: "string_literal d tln tcl s = string_literal d tln tcl s1"
        "last_value s1 = last_value s @ [if c = CHR ''#'' then LF else c]" "\<not> eof s1"
        "drop (it s1) (source s1) = (e # cs) @ d # rest" "current_parsed s1 = current_parsed s"
      by blast
    from "3.IH"(2)[OF False s1(3,4) b "3.prems"(4,5)] s1 False show ?thesis by auto
  qed
qed

text \<open>
  Claim C6. The next lexeme is a terminated string literal: a delimiter (double or single
  quote), a body, and the same delimiter again, where the body holds no sentinel and no
  delimiter outside an escape and does not end inside an escape. Then \<^verbatim>\<open>readtok\<close> returns
  one \<open>StringLiteral\<close> token, its value is the decoding of the body as the specification
  words it, without the delimiters, and the literal is consumed up to and including the
  closing delimiter.
\<close>

theorem string_literal_value:
  assumes "next_input s (ws @ d # body @ d # rest)" and "\<forall>w\<in>set ws. is_whitespace w"
    and "d = DQUOTE \<or> d = SQUOTE" and "terminated_body d body"
  shows "\<exists>t s'. readtok s = Some (Inr (t, s')) \<and> tok_type t = StringLiteral \<and>
    last_value s' = spec_decode d body \<and> next_input s' rest"
proof -
  have d: "\<not> is_whitespace d" "d \<noteq> NUL" "d \<noteq> CHR ''/''" "d \<noteq> BACKSLASH"
    using assms(3) by (auto simp: is_whitespace_def)
  from readtok_reaches[OF assms(1,2) d(1,2,3)] obtain s2 where
    s2: "readtok s = scan_literal (line s2) (col s2) s2" "looking_at s2 d (body @ d # rest)"
      "current_parsed s2" by blast
  let ?s0 = "s2\<lparr>last_value := []\<rparr>"
  have lc: "last_char s2 = d" using s2(2) by (simp add: looking_at_def)
  have "\<not> eof ?s0" "drop (it ?s0) (source ?s0) = body @ d # rest"
    using s2(2) looking_at_not_eof[OF s2(2) d(2)] by (simp_all add: looking_at_def)
  from string_literal_run[OF this assms(4) d(2,4), of "line s2" "col s2"] obtain s' where
    s': "string_literal d (line s2) (col s2) ?s0 = Some (Inr (Token StringLiteral (line s2) (col s2), s'))"
      "last_value s' = spec_decode d body" "\<not> eof s'" "drop (it s') (source s') = rest"
      "current_parsed s' = current_parsed ?s0" by auto
  have "readtok s = Some (Inr (Token StringLiteral (line s2) (col s2), s'))"
    using s2(1) lc assms(3) s'(1) by (auto simp: scan_literal_def)
  moreover have "next_input s' rest" using s'(3,4,5) s2(3) by (simp add: next_input_def)
  ultimately show ?thesis using s'(2) by simp
qed

theorem string_literal_value_witness:
  "next_input (new_Lexer [DQUOTE, CHR ''a'', BACKSLASH, DQUOTE, CHR ''#'', BACKSLASH, CHR ''n'',
      BACKSLASH, CHR ''#'', BACKSLASH, CHR ''q'', SQUOTE, DQUOTE, CHR ''+''])
    ([] @ DQUOTE # [CHR ''a'', BACKSLASH, DQUOTE, CHR ''#'', BACKSLASH, CHR ''n'',
      BACKSLASH, CHR ''#'', BACKSLASH, CHR ''q'', SQUOTE] @ DQUOTE # ''+'') \<and>
   terminated_body DQUOTE [CHR ''a'', BACKSLASH, DQUOTE, CHR ''#'', BACKSLASH, CHR ''n'',
      BACKSLASH, CHR ''#'', BACKSLASH, CHR ''q'', SQUOTE] \<and>
   (\<exists>t s'. readtok (new_Lexer [DQUOTE, CHR ''a'', BACKSLASH, DQUOTE, CHR ''#'', BACKSLASH, CHR ''n'',
      BACKSLASH, CHR ''#'', BACKSLASH, CHR ''q'', SQUOTE, DQUOTE, CHR ''+'']) = Some (Inr (t, s')) \<and>
      tok_type t = StringLiteral \<and>
      last_value s' = [CHR ''a'', DQUOTE, LF, LF, CHR ''#'', BACKSLASH, CHR ''q'', SQUOTE] \<and>
      next_input s' ''+'')"
proof -
  let ?body = "[CHR ''a'', BACKSLASH, DQUOTE, CHR ''#'', BACKSLASH, CHR ''n'',
      BACKSLASH, CHR ''#'', BACKSLASH, CHR ''q'', SQUOTE]"
  let ?s = "new_Lexer (DQUOTE # ?body @ DQUOTE # ''+'')"
  have a: "next_input ?s ([] @ DQUOTE # ?body @ DQUOTE # ''+'')"
    by (simp add: next_input_def new_Lexer_def eof_def)
  have b: "terminated_body DQUOTE ?body" by simp
  from string_literal_value[OF a _ _ b] show ?thesis using a b by simp
qed

subsection \<open>Compound operators\<close>

text \<open>
  For these fourteen operators one call gives the one token of the compound kind, from
  every state in front of the operator and whatever follows it.
\<close>

lemma reachable_compounds_match:
  assumes "m \<in> set reachable_compounds"
  shows "first_match basic_matches (take 4 (fst m @ rest)) = Some m \<and>
    (\<exists>c p. fst m = c # p \<and> \<not> is_whitespace c \<and> c \<noteq> NUL \<and> c \<noteq> CHR ''/'' \<and>
       c \<noteq> DQUOTE \<and> c \<noteq> SQUOTE \<and> c \<noteq> CHR ''$'')"
proof -
  have "m \<in> set reachable_compounds \<longrightarrow> first_match basic_matches (take 4 (fst m @ rest)) = Some m"
    unfolding reachable_compounds_def set_simps insert_iff empty_iff
    by (intro impI, elim disjE; simp add: basic_matches_def)
  moreover have "m \<in> set reachable_compounds \<longrightarrow>
    (\<exists>c p. fst m = c # p \<and> \<not> is_whitespace c \<and> c \<noteq> NUL \<and> c \<noteq> CHR ''/'' \<and>
       c \<noteq> DQUOTE \<and> c \<noteq> SQUOTE \<and> c \<noteq> CHR ''$'')"
    unfolding reachable_compounds_def set_simps insert_iff empty_iff
    by (intro impI, elim disjE; simp add: is_whitespace_def)
  ultimately show ?thesis using assms by blast
qed

lemma reachable_compound_token:
  assumes "next_input s (ws @ fst m @ rest)" and "\<forall>w\<in>set ws. is_whitespace w"
    and "m \<in> set reachable_compounds"
  shows "\<exists>t s'. readtok s = Some (Inr (t, s')) \<and> tok_type t = snd m \<and> next_input s' rest"
proof -
  from reachable_compounds_match[OF assms(3), of rest] obtain c p where
    fm: "first_match basic_matches (take 4 (fst m @ rest)) = Some m" and
    cp: "fst m = c # p" and
    ch: "\<not> is_whitespace c" "c \<noteq> NUL" "c \<noteq> CHR ''/''" "c \<noteq> DQUOTE" "c \<noteq> SQUOTE" "c \<noteq> CHR ''$''"
    by blast
  have "next_input s (ws @ c # (p @ rest))" using assms(1) cp by simp
  from readtok_reaches[OF this assms(2) ch(1,2,3)] obtain s2 where
    s2: "readtok s = scan_literal (line s2) (col s2) s2" "looking_at s2 c (p @ rest)"
      "current_parsed s2" by blast
  have "first_match basic_matches (take 4 (c # (p @ rest))) = Some m" using fm cp by simp
  from scan_token_match[OF s2(2) ch(2) this, of "line s2" "col s2"] obtain s' where
    s': "scan_token (line s2) (col s2) s2 = Some (Inr (Token (snd m) (line s2) (col s2), s'))"
      "\<not> eof s'" "drop (it s') (source s') = drop (length (fst m)) (c # (p @ rest))"
      "current_parsed s' = current_parsed s2" by blast
  have "next_input s' rest" using s'(2,3,4) s2(3) cp by (simp add: next_input_def)
  moreover have "readtok s = Some (Inr (Token (snd m) (line s2) (col s2), s'))"
    using s2(1) scan_literal_token[OF s2(2) ch(4,5,6)] s'(1) by simp
  ultimately show ?thesis by simp
qed

subsection \<open>Evaluations at concrete buffers\<close>

text \<open>
  Claim C1. Every buffer that begins with a compound operator should give one token of the
  compound kind. The table lists \<^verbatim>\<open><\<close> before \<^verbatim>\<open><=\<close> and \<^verbatim>\<open><<=\<close>, and \<^verbatim>\<open>>\<close> before \<^verbatim>\<open>>=\<close>
  and \<^verbatim>\<open>>>=\<close>, so the shorter entry wins: the first token of each of these buffers is
  \<open>Inferior\<close> or \<open>Superior\<close>. For \<^verbatim>\<open>/=\<close> the check for comments has read the \<^verbatim>\<open>=\<close> before
  the table is tried, and the first token is \<open>Equal\<close>.
\<close>

theorem compound_operators_shadowed:
  "outcome (readtok (new_Lexer ''<='')) = Some (Inr (Token Inferior 1 1)) \<and>
   outcome (readtok (new_Lexer ''>='')) = Some (Inr (Token Superior 1 1)) \<and>
   outcome (readtok (new_Lexer ''<<='')) = Some (Inr (Token Inferior 1 1)) \<and>
   outcome (readtok (new_Lexer ''>>='')) = Some (Inr (Token Superior 1 1)) \<and>
   outcome (readtok (new_Lexer ''/='')) = Some (Inr (Token Equal 1 1))"
  by code_simp

text \<open>
  Claim C3. A string literal that is still open at the end of input should give an \<open>End\<close>
  token. The buffer of a double quote and the letter \<^verbatim>\<open>a\<close> makes \<^verbatim>\<open>readtok\<close> throw: the loop
  appends the sentinel to the value and calls \<^verbatim>\<open>readchar\<close> once more. The \<open>End\<close> token is
  returned only where the end of input follows a backslash.
\<close>

theorem unterminated_string_throws:
  "outcome (readtok (new_Lexer [DQUOTE, CHR ''a''])) =
     Some (Inl (LexerException ''Reached EOF (lexer crash)'' 1 2)) \<and>
   outcome (readtok (new_Lexer [DQUOTE, CHR ''a'', BACKSLASH])) = Some (Inr (Token End 1 1))"
  by code_simp

text \<open>
  Claim C5. A block comment that is still open at the end of input should make \<^verbatim>\<open>readtok\<close>
  throw the exception of the unterminated comment, with the position where the comment
  began. It does for \<^verbatim>\<open>/* a\<close>. Where the buffer ends right after a \<^verbatim>\<open>*\<close> of the comment, as
  in \<^verbatim>\<open>/* a *\<close>, the outer loop calls \<^verbatim>\<open>readchar\<close> after the end of input has been observed,
  and the exception is the one of \<^verbatim>\<open>readchar\<close>, with the position of the end of the buffer.
\<close>

theorem unterminated_comment_after_star:
  "outcome (readtok (new_Lexer ''/* a'')) =
     Some (Inl (LexerException ''Multi-line comment reaches EOF'' 1 1)) \<and>
   outcome (readtok (new_Lexer ''/* a *'')) =
     Some (Inl (LexerException ''Reached EOF (lexer crash)'' 1 6))"
  by code_simp

end
